theory Spec2Isabelle
  imports Main
begin

section \<open>ChatService.js: data\<close>

text \<open>
  A Discord user as the code reads it: \<open>user.id\<close> and \<open>user.bot\<close>.
\<close>

record user =
  uid :: nat
  bot :: bool

text \<open>
  The emoji names the code compares \<open>reaction.emoji.name\<close> with: rewind and fast-forward
  for the pages, up, down and the pile of poo for the rating; every other name is
  \<open>OtherEmoji\<close>.
\<close>

datatype emoji = Rewind | FastForward | UpArrow | DownArrow | Poop | OtherEmoji string

text \<open>
  A song is a JavaScript object: its own enumerable properties in order, each a string or a
  number. \<open>song.title\<close> is \<open>map_of song ''title''\<close>, and \<open>None\<close> there is \<open>undefined\<close>.
\<close>

datatype jsval = JStr string | JNum int

type_synonym song = "(string \<times> jsval) list"

datatype field = Field string "jsval option" bool | BlankField

datatype embed = MessageEmbed (color: nat) (fields: "field list")

text \<open>
  What can be sent or shown: plain text, an embed, or \<open>undefined\<close> (what \<open>pages[0]\<close> is for
  an empty array).
\<close>

datatype content = Text string | Embed embed | Undefined

text \<open>
  A message as the code reads it: \<open>msg.channel\<close> (\<open>None\<close> is \<open>undefined\<close>), and for the
  originating message also \<open>msg.author\<close>.
\<close>

record message =
  channel :: "nat option"

record user_message = message +
  author :: user

section \<open>The Gateway\<close>

text \<open>
  The requests the code makes of discord.js: \<open>channel.send\<close>, \<open>message.edit\<close>,
  \<open>message.react\<close> (of \<open>undefined\<close> when the emoji list was empty),
  \<open>reaction.users.remove\<close> and \<open>message.reactions.removeAll\<close>; and \<open>message.delete\<close>,
  which a caller may make of a message it was handed. The log holds each request
  and, where the Gateway answered, its acknowledgement (\<open>Ack\<close>) or failure (\<open>Nak\<close>).
\<close>

datatype call =
    Send nat content
  | Edit content
  | React "emoji option"
  | RemoveUser emoji user
  | RemoveAll
  | DeleteMessage

datatype gw_event = Req call | Ack call | Nak call

datatype printed = PText string | PContent content | PPages "content list" | PSong song

record world =
  gw_log :: "gw_event list"
  console :: "printed list"

definition emit :: "gw_event list \<Rightarrow> 'a world_scheme \<Rightarrow> 'a world_scheme" where
  "emit evs w = w\<lparr>gw_log := gw_log w @ evs\<rparr>"

definition request :: "call \<Rightarrow> 'a world_scheme \<Rightarrow> 'a world_scheme" where
  "request c w = emit [Req c] w"

text \<open>\<open>debugPrint\<close> writes to the console only.\<close>

definition debugPrint :: "printed \<Rightarrow> 'a world_scheme \<Rightarrow> 'a world_scheme" where
  "debugPrint p w = w\<lparr>console := console w @ [p]\<rparr>"

text \<open>
  The requests of a log that have no answer yet, oldest first; the Gateway answers them in
  that order.
\<close>

fun unacked :: "gw_event list \<Rightarrow> call list \<Rightarrow> call list" where
  "unacked [] q = q"
| "unacked (Req c # evs) q = unacked evs (q @ [c])"
| "unacked (Ack c # evs) q = unacked evs (remove1 c q)"
| "unacked (Nak c # evs) q = unacked evs (remove1 c q)"

definition gwAck :: "'a world_scheme \<Rightarrow> 'a world_scheme" where
  "gwAck w = (case unacked (gw_log w) [] of [] \<Rightarrow> w | c # _ \<Rightarrow> emit [Ack c] w)"

text \<open>
  What the Gateway answers to the calls the code waits for: whether the first \<open>send\<close>
  succeeds, and whether the k-th \<open>react\<close> of a chain does.
\<close>

record gateway =
  send_ok :: bool
  react_ok :: "nat \<Rightarrow> bool"

section \<open>postReactionEmojis\<close>

text \<open>
  \<open>msg.react(emojiList.shift())\<close>, then on success the rest of the list if
  \<open>emojiList.length > 0\<close>, else resolve; on failure reject. \<open>shift\<close> of an empty array is
  \<open>undefined\<close>. The result is whether the promise resolved, and the Gateway events in
  order.
\<close>

fun postReactionEmojis :: "(nat \<Rightarrow> bool) \<Rightarrow> nat \<Rightarrow> emoji list \<Rightarrow> bool \<times> gw_event list" where
  "postReactionEmojis ok k [] =
     (if ok k then (True, [Req (React None), Ack (React None)])
      else (False, [Req (React None), Nak (React None)]))"
| "postReactionEmojis ok k (e # emojiList) =
     (if ok k then
        (if length emojiList > 0 then
           (let (r, evs) = postReactionEmojis ok (Suc k) emojiList
            in (r, Req (React (Some e)) # Ack (React (Some e)) # evs))
         else (True, [Req (React (Some e)), Ack (React (Some e))]))
      else (False, [Req (React (Some e)), Nak (React (Some e))]))"

section \<open>simpleNote and send\<close>

datatype msg_type = FAIL | INFO | MUSIC | SEARCH | OtherType

fun note_line :: "msg_type \<Rightarrow> string \<Rightarrow> content" where
  "note_line INFO line = Text ('':information_source: | '' @ line)"
| "note_line MUSIC line = Text ('':musical_note: | '' @ line)"
| "note_line SEARCH line = Text ('':mag: | '' @ line)"
| "note_line FAIL line = Text ('':x: | '' @ line)"
| "note_line OtherType line = Text line"

text \<open>\<open>text.split("\n")\<close>: at least one line, also for the empty text.\<close>

fun split_lines :: "string \<Rightarrow> string list" where
  "split_lines [] = [[]]"
| "split_lines (c # cs) =
     (if c = CHR 0x0A then [] # split_lines cs
      else (c # hd (split_lines cs)) # tl (split_lines cs))"

text \<open>
  What \<open>simpleNote\<close> and \<open>send\<close> return: the resolved stub \<open>{"delete": () => null}\<close>, or
  the promise of a \<open>channel.send\<close>. Deleting the stub asks nothing of the Gateway.
\<close>

datatype reply = DisposableStub | GatewayReply call

text \<open>
  \<open>delete()\<close> on what was returned: \<open>() => null\<close> for the stub, a request to the Gateway
  for a message.
\<close>

fun delete :: "reply \<Rightarrow> 'a world_scheme \<Rightarrow> 'a world_scheme" where
  "delete DisposableStub w = w"
| "delete (GatewayReply c) w = request DeleteMessage w"

definition simpleNote ::
  "'m message_scheme \<Rightarrow> string \<Rightarrow> msg_type \<Rightarrow> 'a world_scheme \<Rightarrow> reply \<times> 'a world_scheme" where
  "simpleNote msg text type w =
     (let w1 = debugPrint (PText text) w in
      case channel msg of
        None \<Rightarrow> (DisposableStub, w1)
      | Some ch \<Rightarrow>
          (let sends = map (\<lambda>line. Send ch (note_line type line)) (split_lines text)
           in (GatewayReply (last sends), emit (map Req sends) w1)))"

definition send ::
  "'m message_scheme \<Rightarrow> content \<Rightarrow> 'a world_scheme \<Rightarrow> reply \<times> 'a world_scheme" where
  "send msg content w =
     (let w1 = debugPrint (PContent content) w in
      case channel msg of
        None \<Rightarrow> (DisposableStub, w1)
      | Some ch \<Rightarrow> (GatewayReply (Send ch content), request (Send ch content) w1))"

section \<open>buildSongEmbed\<close>

text \<open>
  The \<open>for (const key in song)\<close> loop writes \<open>"-"\<close> over every property that is
  \<open>""\<close>; the embed is then built from the song so changed. The function returns the embed
  and the song as the caller now sees it.
\<close>

definition dashEmpty :: "song \<Rightarrow> song" where
  "dashEmpty song = map (\<lambda>(key, v). (key, if v = JStr [] then JStr ''-'' else v)) song"

definition buildSongEmbed :: "song \<Rightarrow> embed \<times> song" where
  "buildSongEmbed song =
     (let song1 = dashEmpty song
      in (MessageEmbed 890629
            [Field ''Title'' (map_of song1 ''title'') True,
             Field ''Artist'' (map_of song1 ''artist'') True,
             BlankField,
             Field ''Requester'' (map_of song1 ''requester'') True,
             Field ''Rating'' (map_of song1 ''rating'') True,
             Field ''Source'' (map_of song1 ''src'') True],
          song1))"

section \<open>Sessions and events\<close>

text \<open>
  What reaches a session from outside: a reaction added by a user (with
  \<open>reaction.users\<close> as it is then), the timer of one collector running out, the
  settling of the i-th scoring promise still pending, and the Gateway answering its oldest
  open request.
\<close>

record reaction =
  emoji_name :: emoji
  users :: "user list"

datatype collector = NextC | BackC | UpC | DownC | PoopC

datatype event = Reaction reaction user | Timeout collector | Settle nat | GwAck

datatype 'a started = NoSession world | Session 'a

text \<open>\<open>pages[i]\<close>: \<open>undefined\<close> out of range.\<close>

definition js_index :: "content list \<Rightarrow> int \<Rightarrow> content" where
  "js_index ps i = (if 0 \<le> i \<and> i < int (length ps) then ps ! nat i else Undefined)"

section \<open>pagedContent\<close>

text \<open>
  The closure of \<open>pagedContent\<close>: \<open>msg.author\<close>, \<open>pages\<close>, the variable \<open>page\<close>, and whether
  each of the two collectors has ended.
\<close>

record paged_session = world +
  owner :: user
  pages :: "content list"
  page :: int
  nextEnded :: bool
  backEnded :: bool

definition pagedContent ::
  "gateway \<Rightarrow> 'm user_message_scheme \<Rightarrow> content list \<Rightarrow> world \<Rightarrow> paged_session started" where
  "pagedContent gw msg ps w =
     (let w1 = debugPrint (PPages ps) w in
      case channel msg of
        None \<Rightarrow> NoSession w1
      | Some ch \<Rightarrow>
          (let first = Send ch (js_index ps 0); w2 = request first w1 in
           if \<not> send_ok gw then NoSession (emit [Nak first] w2)
           else
             (let w3 = emit [Ack first] w2;
                  (ok, evs) = postReactionEmojis (react_ok gw) 0 [Rewind, FastForward];
                  w4 = emit evs w3
              in if \<not> ok then NoSession w4
                 else Session \<lparr>gw_log = gw_log w4, console = console w4,
                        owner = author msg, pages = ps, page = 0,
                        nextEnded = False, backEnded = False\<rparr>)))"

definition nextFilter :: "user \<Rightarrow> reaction \<Rightarrow> user \<Rightarrow> bool" where
  "nextFilter au r u \<longleftrightarrow> emoji_name r = FastForward \<and> uid u = uid au"

definition backFilter :: "user \<Rightarrow> reaction \<Rightarrow> user \<Rightarrow> bool" where
  "backFilter au r u \<longleftrightarrow> emoji_name r = Rewind \<and> uid u = uid au"

definition onNext :: "reaction \<Rightarrow> paged_session \<Rightarrow> paged_session" where
  "onNext r s =
     (let s1 = request (RemoveUser (emoji_name r) (owner s)) s in
      if page s1 + 1 < int (length (pages s1)) then
        (let s2 = s1\<lparr>page := page s1 + 1\<rparr>
         in request (Edit (js_index (pages s2) (page s2))) s2)
      else s1)"

definition onBack :: "reaction \<Rightarrow> paged_session \<Rightarrow> paged_session" where
  "onBack r s =
     (let s1 = request (RemoveUser (emoji_name r) (owner s)) s in
      if page s1 > 0 then
        (let s2 = s1\<lparr>page := page s1 - 1\<rparr>
         in request (Edit (js_index (pages s2) (page s2))) s2)
      else s1)"

text \<open>The \<open>end\<close> handler of every collector: \<open>reactions.removeAll()\<close>.\<close>

definition onEnd :: "'a world_scheme \<Rightarrow> 'a world_scheme" where
  "onEnd w = request RemoveAll w"

text \<open>
  A reaction is offered to each collector that has not ended, in the order the collectors
  were created; a timer ends its collector once and runs the \<open>end\<close> handler.
\<close>

fun p_step :: "event \<Rightarrow> paged_session \<Rightarrow> paged_session" where
  "p_step (Reaction r u) s =
     (let s1 = (if \<not> nextEnded s \<and> nextFilter (owner s) r u then onNext r s else s)
      in if \<not> backEnded s1 \<and> backFilter (owner s1) r u then onBack r s1 else s1)"
| "p_step (Timeout c) s =
     (if c = NextC \<and> \<not> nextEnded s then onEnd (s\<lparr>nextEnded := True\<rparr>)
      else if c = BackC \<and> \<not> backEnded s then onEnd (s\<lparr>backEnded := True\<rparr>)
      else s)"
| "p_step (Settle i) s = s"
| "p_step GwAck s = gwAck s"

definition p_run :: "event list \<Rightarrow> paged_session \<Rightarrow> paged_session" where
  "p_run evs s = foldl (\<lambda>s ev. p_step ev s) s evs"

section \<open>displaySong and handleRatingReaction\<close>

text \<open>
  The scoring callback is the caller's: given the song, the user, the delta and
  \<open>ignoreCd\<close> it leaves the song as it changed it and returns a promise, which later
  resolves with a note (or none) or rejects with an error.
\<close>

datatype outcome = Resolves "string option" | Rejects string

type_synonym rating_cb = "song \<Rightarrow> user \<Rightarrow> int \<Rightarrow> bool \<Rightarrow> song \<times> outcome"

text \<open>
  The closure of \<open>displaySong\<close>: the channel of the song message, the song, whether each
  of the three collectors has ended, the scoring promises not yet settled, and the
  arguments of every call of the scoring callback so far.
\<close>

record rating_session = world +
  song_channel :: nat
  song :: song
  upEnded :: bool
  downEnded :: bool
  poopEnded :: bool
  pending :: "outcome list"
  ratingCalls :: "(user \<times> int \<times> bool) list"

definition displaySong ::
  "gateway \<Rightarrow> 'm message_scheme \<Rightarrow> song \<Rightarrow> world \<Rightarrow> song \<times> rating_session started" where
  "displaySong gw msg sg w =
     (let w1 = debugPrint (PSong sg) w in
      case channel msg of
        None \<Rightarrow> (sg, NoSession w1)
      | Some ch \<Rightarrow>
          (let (emb, sg1) = buildSongEmbed sg;
               first = Send ch (Embed emb);
               w2 = request first w1 in
           if \<not> send_ok gw then (sg1, NoSession (emit [Nak first] w2))
           else
             (let w3 = emit [Ack first] w2;
                  (ok, evs) = postReactionEmojis (react_ok gw) 0 [UpArrow, DownArrow, Poop];
                  w4 = emit evs w3
              in if \<not> ok then (sg1, NoSession w4)
                 else (sg1, Session \<lparr>gw_log = gw_log w4, console = console w4,
                        song_channel = ch, song = sg1,
                        upEnded = False, downEnded = False, poopEnded = False,
                        pending = [], ratingCalls = []\<rparr>))))"

text \<open>\<open>reaction.message\<close>: the song message, in the channel it was sent to.\<close>

definition reaction_message :: "rating_session \<Rightarrow> message" where
  "reaction_message s = \<lparr>channel = Some (song_channel s)\<rparr>"

text \<open>The body of the \<open>forEach\<close>: remove the user's reaction, call the callback.\<close>

definition rate ::
  "rating_cb \<Rightarrow> reaction \<Rightarrow> int \<Rightarrow> bool \<Rightarrow> rating_session \<Rightarrow> user \<Rightarrow> rating_session" where
  "rate processRating r delta ignoreCd s u =
     (let s1 = request (RemoveUser (emoji_name r) u) s;
          (song1, out) = processRating (song s1) u delta ignoreCd
      in s1\<lparr>song := song1, pending := pending s1 @ [out],
            ratingCalls := ratingCalls s1 @ [(u, delta, ignoreCd)]\<rparr>)"

definition handleRatingReaction ::
  "rating_cb \<Rightarrow> reaction \<Rightarrow> int \<Rightarrow> bool \<Rightarrow> rating_session \<Rightarrow> rating_session" where
  "handleRatingReaction processRating r delta ignoreCd s =
     foldl (rate processRating r delta ignoreCd) s (filter (\<lambda>u. \<not> bot u) (users r))"

text \<open>
  The \<open>then\<close> and \<open>catch\<close> of one scoring promise: on a result, edit the song message
  with a fresh embed and send the note if it is truthy (\<open>""\<close> is not); on an error, send it
  as a failure note.
\<close>

definition settle :: "nat \<Rightarrow> rating_session \<Rightarrow> rating_session" where
  "settle i s =
     (if i < length (pending s) then
        (let out = pending s ! i;
             s1 = s\<lparr>pending := take i (pending s) @ drop (Suc i) (pending s)\<rparr>
         in case out of
              Resolves note \<Rightarrow>
                (let (emb, song1) = buildSongEmbed (song s1);
                     s2 = request (Edit (Embed emb)) (s1\<lparr>song := song1\<rparr>)
                 in case note of
                      None \<Rightarrow> s2
                    | Some n \<Rightarrow>
                        if n \<noteq> [] then snd (simpleNote (reaction_message s2) n MUSIC s2)
                        else s2)
            | Rejects err \<Rightarrow> snd (simpleNote (reaction_message s1) err FAIL s1))
      else s)"

definition poop_note :: string where
  "poop_note = ''Let me clean that '' @ [CHR 0xF0, CHR 0x9F, CHR 0x92, CHR 0xA9] @ '' for you''"

definition ratingFilter :: "emoji \<Rightarrow> reaction \<Rightarrow> user \<Rightarrow> bool" where
  "ratingFilter e r u \<longleftrightarrow> emoji_name r = e \<and> \<not> bot u"

definition onUp :: "rating_cb \<Rightarrow> reaction \<Rightarrow> rating_session \<Rightarrow> rating_session" where
  "onUp processRating r s = handleRatingReaction processRating r 1 False s"

definition onDown :: "rating_cb \<Rightarrow> reaction \<Rightarrow> rating_session \<Rightarrow> rating_session" where
  "onDown processRating r s = handleRatingReaction processRating r (- 1) False s"

definition onPoop :: "rating_cb \<Rightarrow> reaction \<Rightarrow> rating_session \<Rightarrow> rating_session" where
  "onPoop processRating r s =
     (let s1 = snd (simpleNote (reaction_message s) poop_note MUSIC s)
      in handleRatingReaction processRating r (- 1000) True s1)"

fun r_step :: "rating_cb \<Rightarrow> event \<Rightarrow> rating_session \<Rightarrow> rating_session" where
  "r_step cb (Reaction r u) s =
     (let s1 = (if \<not> upEnded s \<and> ratingFilter UpArrow r u then onUp cb r s else s);
          s2 = (if \<not> downEnded s1 \<and> ratingFilter DownArrow r u then onDown cb r s1 else s1)
      in if \<not> poopEnded s2 \<and> ratingFilter Poop r u then onPoop cb r s2 else s2)"
| "r_step cb (Timeout c) s =
     (if c = UpC \<and> \<not> upEnded s then onEnd (s\<lparr>upEnded := True\<rparr>)
      else if c = DownC \<and> \<not> downEnded s then onEnd (s\<lparr>downEnded := True\<rparr>)
      else if c = PoopC \<and> \<not> poopEnded s then onEnd (s\<lparr>poopEnded := True\<rparr>)
      else s)"
| "r_step cb (Settle i) s = settle i s"
| "r_step cb GwAck s = gwAck s"

definition r_run :: "rating_cb \<Rightarrow> event list \<Rightarrow> rating_session \<Rightarrow> rating_session" where
  "r_run cb evs s = foldl (\<lambda>s ev. r_step cb ev s) s evs"

text \<open>
  A session is open while one of its collectors has not ended; the open collectors are
  its subscriptions.
\<close>

definition p_open :: "paged_session \<Rightarrow> collector list" where
  "p_open s = (if nextEnded s then [] else [NextC]) @ (if backEnded s then [] else [BackC])"

definition r_open :: "rating_session \<Rightarrow> collector list" where
  "r_open s = (if upEnded s then [] else [UpC]) @ (if downEnded s then [] else [DownC])
     @ (if poopEnded s then [] else [PoopC])"

text \<open>The notes of a log: its \<open>send\<close> requests.\<close>

definition sends :: "gw_event list \<Rightarrow> content list" where
  "sends evs = concat (map (\<lambda>ev. case ev of Req (Send ch c) \<Rightarrow> [c] | _ \<Rightarrow> []) evs)"

definition edits :: "gw_event list \<Rightarrow> content list" where
  "edits evs = concat (map (\<lambda>ev. case ev of Req (Edit c) \<Rightarrow> [c] | _ \<Rightarrow> []) evs)"

text \<open>
  How the Gateway's message changes with a request: an edit replaces what is shown, a
  \<open>react\<close> adds an icon, \<open>removeAll\<close> strips every icon. The icons of other users come and
  go by their own doing.
\<close>

record view =
  shown :: content
  icons :: "emoji option list"

fun gw_apply :: "view \<Rightarrow> gw_event \<Rightarrow> view" where
  "gw_apply v (Req (Edit c)) = v\<lparr>shown := c\<rparr>"
| "gw_apply v (Req (React e)) = v\<lparr>icons := icons v @ [e]\<rparr>"
| "gw_apply v (Req RemoveAll) = v\<lparr>icons := []\<rparr>"
| "gw_apply v _ = v"

definition view_after :: "gw_event list \<Rightarrow> view \<Rightarrow> view" where
  "view_after evs v = foldl gw_apply v evs"

text \<open>The Gateway events of attaching every emoji of a list, each acknowledged in turn.\<close>

definition attached :: "emoji list \<Rightarrow> gw_event list" where
  "attached es = concat (map (\<lambda>e. [Req (React (Some e)), Ack (React (Some e))]) es)"

text \<open>A session, or any world, without its Gateway log.\<close>

definition forget_log :: "'a world_scheme \<Rightarrow> 'a world_scheme" where
  "forget_log w = w\<lparr>gw_log := []\<rparr>"

section \<open>An example conversation\<close>

definition gw0 :: gateway where
  "gw0 = \<lparr>send_ok = True, react_ok = (\<lambda>k. True)\<rparr>"

definition alice :: user where
  "alice = \<lparr>uid = 7, bot = False\<rparr>"

definition bob :: user where
  "bob = \<lparr>uid = 8, bot = False\<rparr>"

definition robot :: user where
  "robot = \<lparr>uid = 1, bot = True\<rparr>"

definition msg0 :: user_message where
  "msg0 = \<lparr>channel = Some 3, author = alice\<rparr>"

definition w0 :: world where
  "w0 = \<lparr>gw_log = [], console = []\<rparr>"

definition pages0 :: "content list" where
  "pages0 = [Text ''a'', Text ''b'', Text ''c'']"

definition forward :: "user \<Rightarrow> event" where
  "forward u = Reaction \<lparr>emoji_name = FastForward, users = [robot, u]\<rparr> u"

definition backward :: "user \<Rightarrow> event" where
  "backward u = Reaction \<lparr>emoji_name = Rewind, users = [robot, u]\<rparr> u"

text \<open>The session \<open>pagedContent\<close> opens for \<open>msg0\<close> and \<open>pages0\<close>.\<close>

definition paged0 :: paged_session where
  "paged0 = \<lparr>gw_log = [Req (Send 3 (Text ''a'')), Ack (Send 3 (Text ''a'')),
                Req (React (Some Rewind)), Ack (React (Some Rewind)),
                Req (React (Some FastForward)), Ack (React (Some FastForward))],
              console = [PPages pages0],
              owner = alice, pages = pages0, page = 0,
              nextEnded = False, backEnded = False\<rparr>"

text \<open>A message whose channel is \<open>undefined\<close>.\<close>

definition stale :: user_message where
  "stale = \<lparr>channel = None, author = alice\<rparr>"

definition song0 :: song where
  "song0 = [(''title'', JStr ''A''), (''artist'', JStr []), (''requester'', JStr ''alice''),
            (''rating'', JNum 0), (''src'', JStr ''yt'')]"

text \<open>The song after the first embed was built from it.\<close>

definition song1 :: song where
  "song1 = [(''title'', JStr ''A''), (''artist'', JStr ''-''), (''requester'', JStr ''alice''),
            (''rating'', JNum 0), (''src'', JStr ''yt'')]"

text \<open>
  An example scoring callback: it adds the delta to \<open>rating\<close> and resolves with no
  note, but rejects a vote of user 8 unless the cooldown is ignored.
\<close>

definition bump :: "int \<Rightarrow> song \<Rightarrow> song" where
  "bump d sg = map (\<lambda>(key, v). (key, case v of JNum n \<Rightarrow> if key = ''rating'' then JNum (n + d) else v | _ \<Rightarrow> v)) sg"

definition cb0 :: rating_cb where
  "cb0 sg u d ignoreCd =
     (if uid u = 8 \<and> \<not> ignoreCd then (sg, Rejects ''cooldown'')
      else (bump d sg, Resolves None))"

definition vote :: "emoji \<Rightarrow> user \<Rightarrow> event" where
  "vote e u = Reaction \<lparr>emoji_name = e, users = [robot, u]\<rparr> u"

text \<open>The session \<open>displaySong\<close> opens for \<open>msg0\<close> and \<open>song0\<close>.\<close>

definition embed1 :: embed where
  "embed1 = MessageEmbed 890629
     [Field ''Title'' (Some (JStr ''A'')) True, Field ''Artist'' (Some (JStr ''-'')) True,
      BlankField,
      Field ''Requester'' (Some (JStr ''alice'')) True, Field ''Rating'' (Some (JNum 0)) True,
      Field ''Source'' (Some (JStr ''yt'')) True]"

definition rating0 :: rating_session where
  "rating0 = \<lparr>gw_log = [Req (Send 3 (Embed embed1)), Ack (Send 3 (Embed embed1)),
                Req (React (Some UpArrow)), Ack (React (Some UpArrow)),
                Req (React (Some DownArrow)), Ack (React (Some DownArrow)),
                Req (React (Some Poop)), Ack (React (Some Poop))],
              console = [PSong song0],
              song_channel = 3, song = song1,
              upEnded = False, downEnded = False, poopEnded = False,
              pending = [], ratingCalls = []\<rparr>"

section \<open>Properties of postReactionEmojis\<close>

lemma post_all_ok:
  "es \<noteq> [] \<Longrightarrow> (\<forall>i<length es. ok (k + i)) \<Longrightarrow> postReactionEmojis ok k es = (True, attached es)"
proof (induction es arbitrary: k)
  case Nil
  then show ?case by simp
next
  case (Cons e es)
  have ok0: "ok k" using Cons.prems(2) by force
  show ?case
  proof (cases "es = []")
    case True
    then show ?thesis using ok0 by (simp add: attached_def)
  next
    case False
    have "\<forall>i<length es. ok (Suc k + i)"
      using Cons.prems(2) by force
    then have "postReactionEmojis ok (Suc k) es = (True, attached es)"
      using Cons.IH False by blast
    then show ?thesis using ok0 False by (simp add: attached_def)
  qed
qed

lemma post_first_fail:
  "j < length es \<Longrightarrow> \<not> ok (k + j) \<Longrightarrow> (\<forall>i<j. ok (k + i)) \<Longrightarrow>
   postReactionEmojis ok k es =
     (False, attached (take j es) @ [Req (React (Some (es ! j))), Nak (React (Some (es ! j)))])"
proof (induction es arbitrary: k j)
  case Nil
  then show ?case by simp
next
  case (Cons e es)
  show ?case
  proof (cases j)
    case 0
    then show ?thesis using Cons.prems by (simp add: attached_def)
  next
    case (Suc j')
    have ok0: "ok k" using Cons.prems(3) Suc by force
    have j': "j' < length es" using Cons.prems(1) Suc by simp
    have nk: "\<not> ok (Suc k + j')" using Cons.prems(2) Suc by simp
    have "\<forall>i<j'. ok (Suc k + i)" using Cons.prems(3) Suc by force
    then have "postReactionEmojis ok (Suc k) es =
     (False, attached (take j' es) @ [Req (React (Some (es ! j'))), Nak (React (Some (es ! j')))])"
      using Cons.IH j' nk by blast
    then show ?thesis using ok0 j' Suc by (auto simp add: attached_def)
  qed
qed

lemma post_resolves_iff:
  "es \<noteq> [] \<Longrightarrow> fst (postReactionEmojis ok k es) \<longleftrightarrow> (\<forall>i<length es. ok (k + i))"
proof
  assume ne: "es \<noteq> []" and r: "fst (postReactionEmojis ok k es)"
  show "\<forall>i<length es. ok (k + i)"
  proof (rule ccontr)
    assume "\<not> (\<forall>i<length es. ok (k + i))"
    then obtain i where i: "i < length es" "\<not> ok (k + i)" by blast
    define j where "j = (LEAST i. i < length es \<and> \<not> ok (k + i))"
    have j: "j < length es \<and> \<not> ok (k + j)"
      unfolding j_def using i by (metis (mono_tags, lifting) LeastI)
    have "\<forall>i<j. ok (k + i)"
    proof (intro allI impI)
      fix i' assume "i' < j"
      then have "\<not> (i' < length es \<and> \<not> ok (k + i'))"
        unfolding j_def by (rule not_less_Least)
      moreover have "i' < length es" using \<open>i' < j\<close> j by simp
      ultimately show "ok (k + i')" by blast
    qed
    then have "\<not> fst (postReactionEmojis ok k es)"
      using post_first_fail [of j es ok k] j by simp
    then show False using r by simp
  qed
next
  assume "es \<noteq> []" and "\<forall>i<length es. ok (k + i)"
  then show "fst (postReactionEmojis ok k es)" by (simp add: post_all_ok)
qed

text \<open>
  C4. For a non-empty list of emoji symbols (the method is private and both of its callers
  pass a non-empty literal), \<open>postReactionEmojis\<close> asks for the attachments in list order,
  each request followed by its acknowledgement before the next request. It resolves exactly
  when every attachment succeeded, and then the log is the whole list attached. When the
  j-th attachment is the first to fail, it rejects, and the log is the first j emojis
  attached, then the failed request, and nothing after it.
\<close>

theorem postReactionEmojis_sequenced:
  assumes "es \<noteq> []"
  shows "(fst (postReactionEmojis ok k es) \<longleftrightarrow> (\<forall>i<length es. ok (k + i))) \<and>
         ((\<forall>i<length es. ok (k + i)) \<longrightarrow> postReactionEmojis ok k es = (True, attached es)) \<and>
         (\<forall>j<length es. \<not> ok (k + j) \<and> (\<forall>i<j. ok (k + i)) \<longrightarrow>
            postReactionEmojis ok k es =
              (False, attached (take j es) @
                 [Req (React (Some (es ! j))), Nak (React (Some (es ! j)))]))"
  using assms post_all_ok [of es ok k] post_resolves_iff [of es ok k] post_first_fail [of _ es ok k]
  by blast

theorem postReactionEmojis_sequenced_witness:
  "[Rewind, FastForward] \<noteq> [] \<and>
   postReactionEmojis (\<lambda>k. True) 0 [Rewind, FastForward] =
     (True, [Req (React (Some Rewind)), Ack (React (Some Rewind)),
             Req (React (Some FastForward)), Ack (React (Some FastForward))]) \<and>
   postReactionEmojis (\<lambda>k. k \<noteq> 1) 0 [UpArrow, DownArrow, Poop] =
     (False, [Req (React (Some UpArrow)), Ack (React (Some UpArrow)),
              Req (React (Some DownArrow)), Nak (React (Some DownArrow))])"
proof -
  have a: "postReactionEmojis (\<lambda>k. True) 0 [Rewind, FastForward] =
             (True, attached [Rewind, FastForward])"
    using postReactionEmojis_sequenced [of "[Rewind, FastForward]" "\<lambda>k. True" 0] by simp
  have "(1::nat) < length [UpArrow, DownArrow, Poop] \<and> \<not> (0 + 1 \<noteq> (1::nat)) \<and>
        (\<forall>i<(1::nat). 0 + i \<noteq> (1::nat))" by simp
  then have b: "postReactionEmojis (\<lambda>k. k \<noteq> 1) 0 [UpArrow, DownArrow, Poop] =
     (False, attached (take 1 [UpArrow, DownArrow, Poop]) @
        [Req (React (Some ([UpArrow, DownArrow, Poop] ! 1))),
         Nak (React (Some ([UpArrow, DownArrow, Poop] ! 1)))])"
    using postReactionEmojis_sequenced [of "[UpArrow, DownArrow, Poop]" "\<lambda>k. k \<noteq> 1" 0]
    by blast
  show ?thesis using a b by (simp add: attached_def)
qed

section \<open>Properties of paged sessions\<close>

lemma pagedContent_Session:
  assumes "pagedContent gw msg ps w = Session s"
  shows "page s = 0 \<and> pages s = ps \<and> owner s = author msg \<and> \<not> nextEnded s \<and> \<not> backEnded s"
  using assms
  by (auto simp: pagedContent_def Let_def split: option.splits if_splits prod.splits)

lemma pagedContent_paged0: "pagedContent gw0 msg0 pages0 w0 = Session paged0"
  by (simp add: pagedContent_def gw0_def msg0_def w0_def pages0_def paged0_def debugPrint_def
      request_def emit_def js_index_def Let_def)

lemma p_step_frame:
  "pages (p_step ev s) = pages s \<and> owner (p_step ev s) = owner s"
  by (cases ev)
     (auto simp: onNext_def onBack_def onEnd_def gwAck_def request_def emit_def Let_def
           split: list.splits)

lemma p_step_bounds:
  assumes "0 \<le> page s" and "page s < int (length (pages s))"
  shows "0 \<le> page (p_step ev s) \<and> page (p_step ev s) < int (length (pages s))"
  using assms
  by (cases ev)
     (auto simp: onNext_def onBack_def onEnd_def gwAck_def request_def emit_def Let_def
           nextFilter_def backFilter_def split: list.splits)

lemma p_run_snoc: "p_run (evs @ [ev]) s = p_step ev (p_run evs s)"
  by (simp add: p_run_def)

lemma p_run_frame: "pages (p_run evs s) = pages s \<and> owner (p_run evs s) = owner s"
proof (induction evs rule: rev_induct)
  case Nil
  show ?case by (simp add: p_run_def)
next
  case (snoc ev evs)
  then show ?case by (simp add: p_run_snoc p_step_frame)
qed

lemma p_run_bounds:
  assumes "0 \<le> page s" and "page s < int (length (pages s))"
  shows "0 \<le> page (p_run evs s) \<and> page (p_run evs s) < int (length (pages s))"
proof (induction evs rule: rev_induct)
  case Nil
  then show ?case using assms by (simp add: p_run_def)
next
  case (snoc ev evs)
  then show ?case
    using p_step_bounds [of "p_run evs s" ev] by (simp add: p_run_snoc p_run_frame)
qed

lemma forward_at_end:
  assumes "emoji_name r = FastForward" and "int (length (pages s)) \<le> page s + 1"
  shows "page (p_step (Reaction r u) s) = page s \<and>
         edits (gw_log (p_step (Reaction r u) s)) = edits (gw_log s) \<and>
         (gw_log (p_step (Reaction r u) s) = gw_log s \<or>
          gw_log (p_step (Reaction r u) s) = gw_log s @ [Req (RemoveUser FastForward (owner s))])"
  using assms
  by (auto simp: onNext_def onBack_def request_def emit_def Let_def edits_def
           nextFilter_def backFilter_def)

lemma back_at_start:
  assumes "emoji_name r = Rewind" and "page s = 0"
  shows "page (p_step (Reaction r u) s) = page s \<and>
         edits (gw_log (p_step (Reaction r u) s)) = edits (gw_log s) \<and>
         (gw_log (p_step (Reaction r u) s) = gw_log s \<or>
          gw_log (p_step (Reaction r u) s) = gw_log s @ [Req (RemoveUser Rewind (owner s))])"
  using assms
  by (auto simp: onNext_def onBack_def request_def emit_def Let_def edits_def
           nextFilter_def backFilter_def)

text \<open>
  C2. Take the session \<open>pagedContent\<close> opens and any sequence of events, and let \<open>s\<close> be
  the session after them. If there is at least one page (with none, \<open>pages[0]\<close> is
  \<open>undefined\<close> and there is no page to be on), the cursor is within
  \<open>[0, len(pages) - 1]\<close>. A forward reaction when \<open>cursor + 1 \<ge> len(pages)\<close>, and a back
  reaction when the cursor is 0, leave the cursor where it is and request no edit: the log
  is unchanged, or grows by the removal of the owner's reaction and nothing else.
\<close>

theorem paged_cursor_in_bounds:
  assumes "pagedContent gw msg ps w = Session s0" and "s = p_run evs s0"
  shows "(ps \<noteq> [] \<longrightarrow> 0 \<le> page s \<and> page s \<le> int (length ps) - 1) \<and>
         (\<forall>r u. emoji_name r = FastForward \<and> int (length ps) \<le> page s + 1 \<longrightarrow>
            page (p_step (Reaction r u) s) = page s \<and>
            edits (gw_log (p_step (Reaction r u) s)) = edits (gw_log s) \<and>
            (gw_log (p_step (Reaction r u) s) = gw_log s \<or>
             gw_log (p_step (Reaction r u) s) =
               gw_log s @ [Req (RemoveUser FastForward (author msg))])) \<and>
         (\<forall>r u. emoji_name r = Rewind \<and> page s = 0 \<longrightarrow>
            page (p_step (Reaction r u) s) = page s \<and>
            edits (gw_log (p_step (Reaction r u) s)) = edits (gw_log s) \<and>
            (gw_log (p_step (Reaction r u) s) = gw_log s \<or>
             gw_log (p_step (Reaction r u) s) =
               gw_log s @ [Req (RemoveUser Rewind (author msg))]))"
proof -
  have s0: "page s0 = 0" "pages s0 = ps" "owner s0 = author msg"
    using pagedContent_Session [OF assms(1)] by simp_all
  have fr: "pages s = ps" "owner s = author msg"
    using p_run_frame [of evs s0] s0 assms(2) by simp_all
  have b: "ps \<noteq> [] \<longrightarrow> 0 \<le> page s \<and> page s \<le> int (length ps) - 1"
  proof
    assume "ps \<noteq> []"
    then have "page s0 < int (length (pages s0))" using s0 by simp
    then show "0 \<le> page s \<and> page s \<le> int (length ps) - 1"
      using p_run_bounds [of s0 evs] s0 assms(2) by simp
  qed
  have f: "\<forall>r u. emoji_name r = FastForward \<and> int (length ps) \<le> page s + 1 \<longrightarrow>
            page (p_step (Reaction r u) s) = page s \<and>
            edits (gw_log (p_step (Reaction r u) s)) = edits (gw_log s) \<and>
            (gw_log (p_step (Reaction r u) s) = gw_log s \<or>
             gw_log (p_step (Reaction r u) s) =
               gw_log s @ [Req (RemoveUser FastForward (author msg))])"
    using forward_at_end [of _ s] fr by simp
  have k: "\<forall>r u. emoji_name r = Rewind \<and> page s = 0 \<longrightarrow>
            page (p_step (Reaction r u) s) = page s \<and>
            edits (gw_log (p_step (Reaction r u) s)) = edits (gw_log s) \<and>
            (gw_log (p_step (Reaction r u) s) = gw_log s \<or>
             gw_log (p_step (Reaction r u) s) =
               gw_log s @ [Req (RemoveUser Rewind (author msg))])"
    using back_at_start [of _ s] fr by simp
  show ?thesis using b f k by blast
qed

lemma run_forward2:
  "p_run [forward alice, forward alice] paged0 =
     paged0\<lparr>gw_log := gw_log paged0 @
        [Req (RemoveUser FastForward alice), Req (Edit (Text ''b'')),
         Req (RemoveUser FastForward alice), Req (Edit (Text ''c''))],
       page := 2\<rparr>"
  by (simp add: p_run_def forward_def paged0_def pages0_def alice_def robot_def
      nextFilter_def backFilter_def onNext_def request_def emit_def js_index_def Let_def)

theorem paged_cursor_in_bounds_witness:
  "pagedContent gw0 msg0 pages0 w0 = Session paged0 \<and> pages0 \<noteq> [] \<and>
   page (p_run [forward alice, forward alice] paged0) = 2 \<and>
   int (length pages0) \<le> page (p_run [forward alice, forward alice] paged0) + 1 \<and>
   page (p_step (forward alice) (p_run [forward alice, forward alice] paged0)) = 2 \<and>
   edits (gw_log (p_step (forward alice) (p_run [forward alice, forward alice] paged0))) =
     [Text ''b'', Text ''c''] \<and>
   page (p_run [backward alice] paged0) = 0"
proof -
  let ?s = "p_run [forward alice, forward alice] paged0"
  let ?r = "\<lparr>emoji_name = FastForward, users = [robot, alice]\<rparr>"
  let ?b = "\<lparr>emoji_name = Rewind, users = [robot, alice]\<rparr>"
  have ne: "pages0 \<noteq> []" by (simp add: pages0_def)
  have in_bounds: "0 \<le> page ?s \<and> page ?s \<le> int (length pages0) - 1"
    using paged_cursor_in_bounds [where evs = "[forward alice, forward alice]",
        OF pagedContent_paged0 refl] ne
    by blast
  have p2: "page ?s = 2" by (simp add: run_forward2)
  have at_end: "emoji_name ?r = FastForward \<and> int (length pages0) \<le> page ?s + 1"
    using p2 by (simp add: pages0_def)
  have e2: "edits (gw_log ?s) = [Text ''b'', Text ''c'']"
    unfolding run_forward2 by (simp add: edits_def paged0_def)
  have fw: "Reaction ?r alice = forward alice" by (simp add: forward_def)
  have bw: "Reaction ?b alice = backward alice" by (simp add: backward_def)
  have "page (p_step (Reaction ?r alice) ?s) = page ?s \<and>
        edits (gw_log (p_step (Reaction ?r alice) ?s)) = edits (gw_log ?s)"
    using paged_cursor_in_bounds [where evs = "[forward alice, forward alice]",
        OF pagedContent_paged0 refl] at_end
    by blast
  then have fwd: "page (p_step (forward alice) ?s) = 2 \<and>
        edits (gw_log (p_step (forward alice) ?s)) = [Text ''b'', Text ''c'']"
    unfolding fw using p2 e2 by simp
  have r0: "p_run [] paged0 = paged0" by (simp add: p_run_def)
  have at_start: "emoji_name ?b = Rewind \<and> page (p_run [] paged0) = 0"
    by (simp add: p_run_def paged0_def)
  have "page (p_step (Reaction ?b alice) (p_run [] paged0)) = page (p_run [] paged0)"
    using paged_cursor_in_bounds [where evs = "[]", OF pagedContent_paged0 refl] at_start
    by blast
  then have "page (p_step (backward alice) paged0) = page paged0"
    unfolding bw r0 .
  then have at_zero: "page (p_run [backward alice] paged0) = 0"
    by (simp add: p_run_def paged0_def)
  show ?thesis
    using pagedContent_paged0 ne p2 at_end fwd at_zero by simp
qed

text \<open>
  C6. In the session \<open>pagedContent\<close> opens, after any sequence of events, a reaction by a
  user whose id is not the id of the author of the originating message changes nothing:
  no cursor change, no request, no console output. A fast-forward by a user with the
  author's id runs the forward handler while that collector is open, and a rewind the
  back handler.
\<close>

theorem paged_navigation_owner_only:
  assumes "pagedContent gw msg ps w = Session s0" and "s = p_run evs s0"
  shows "(uid u \<noteq> uid (author msg) \<longrightarrow> p_step (Reaction r u) s = s) \<and>
         (uid u = uid (author msg) \<and> emoji_name r = FastForward \<and> \<not> nextEnded s \<longrightarrow>
            p_step (Reaction r u) s = onNext r s) \<and>
         (uid u = uid (author msg) \<and> emoji_name r = Rewind \<and> \<not> backEnded s \<longrightarrow>
            p_step (Reaction r u) s = onBack r s)"
proof -
  have "owner s = author msg"
    using pagedContent_Session [OF assms(1)] p_run_frame [of evs s0] assms(2) by simp
  then show ?thesis
    by (simp add: nextFilter_def backFilter_def)
qed

theorem paged_navigation_owner_only_witness:
  "pagedContent gw0 msg0 pages0 w0 = Session paged0 \<and> uid bob \<noteq> uid (author msg0) \<and>
   p_step (forward bob) (p_run [forward alice] paged0) = p_run [forward alice] paged0 \<and>
   page (p_run [forward alice] paged0) = 1 \<and>
   page (p_step (forward alice) (p_run [forward alice] paged0)) = 2"
proof -
  have ne: "uid bob \<noteq> uid (author msg0)" by (simp add: bob_def msg0_def alice_def)
  have a: "p_step (forward bob) (p_run [forward alice] paged0) = p_run [forward alice] paged0"
    using paged_navigation_owner_only [where evs = "[forward alice]" and u = bob
        and r = "\<lparr>emoji_name = FastForward, users = [robot, bob]\<rparr>",
        OF pagedContent_paged0 refl] ne
    by (simp add: forward_def)
  have b: "page (p_run [forward alice] paged0) = 1 \<and>
           page (p_step (forward alice) (p_run [forward alice] paged0)) = 2"
    by (simp add: p_run_def forward_def paged0_def pages0_def alice_def robot_def
        nextFilter_def backFilter_def onNext_def request_def emit_def js_index_def Let_def)
  show ?thesis using pagedContent_paged0 ne a b by simp
qed

section \<open>Properties of simpleNote, send and the unavailable channel\<close>

lemma split_lines_nonempty: "split_lines t \<noteq> []"
  by (cases t) simp_all

lemma split_lines_one: "CHR 0x0A \<notin> set t \<Longrightarrow> split_lines t = [t]"
  by (induction t) auto

lemma simpleNote_Some:
  assumes "channel msg = Some ch"
  shows "snd (simpleNote msg t ty w) =
           w\<lparr>console := console w @ [PText t],
             gw_log := gw_log w @ map (\<lambda>l. Req (Send ch (note_line ty l))) (split_lines t)\<rparr>"
  using assms by (simp add: simpleNote_def debugPrint_def emit_def Let_def comp_def)

text \<open>
  C8. When \<open>msg.channel\<close> is \<open>undefined\<close>, \<open>simpleNote\<close> and \<open>send\<close> return the resolved
  stub and \<open>pagedContent\<close> and \<open>displaySong\<close> open no session; none of them asks anything
  of the Gateway (the log is as before; only \<open>debugPrint\<close> has written to the console),
  \<open>displaySong\<close> leaves the song as it was, and deleting the stub changes nothing.
\<close>

theorem channel_unavailable_noop:
  assumes "channel msg = None"
  shows "simpleNote msg t ty w = (DisposableStub, w\<lparr>console := console w @ [PText t]\<rparr>) \<and>
         send msg c w = (DisposableStub, w\<lparr>console := console w @ [PContent c]\<rparr>) \<and>
         pagedContent gw msg ps w = NoSession (w\<lparr>console := console w @ [PPages ps]\<rparr>) \<and>
         displaySong gw msg sg w = (sg, NoSession (w\<lparr>console := console w @ [PSong sg]\<rparr>)) \<and>
         gw_log (snd (simpleNote msg t ty w)) = gw_log w \<and>
         gw_log (snd (send msg c w)) = gw_log w \<and>
         delete (fst (simpleNote msg t ty w)) w' = w' \<and>
         delete (fst (send msg c w)) w' = w'"
  using assms
  by (simp add: simpleNote_def send_def pagedContent_def displaySong_def debugPrint_def Let_def)

theorem channel_unavailable_noop_witness:
  "channel stale = None \<and>
   simpleNote stale ''hello'' INFO w0 =
     (DisposableStub, \<lparr>gw_log = [], console = [PText ''hello'']\<rparr>) \<and>
   send stale (Text ''hello'') w0 =
     (DisposableStub, \<lparr>gw_log = [], console = [PContent (Text ''hello'')]\<rparr>) \<and>
   pagedContent gw0 stale pages0 w0 = NoSession \<lparr>gw_log = [], console = [PPages pages0]\<rparr> \<and>
   displaySong gw0 stale song0 w0 = (song0, NoSession \<lparr>gw_log = [], console = [PSong song0]\<rparr>)"
proof -
  have h: "channel stale = None" by (simp add: stale_def)
  show ?thesis
    using h channel_unavailable_noop [OF h, of "''hello''" INFO w0 "Text ''hello''" gw0 pages0
        song0 w0]
    by (simp add: w0_def)
qed

section \<open>Properties of buildSongEmbed\<close>

lemma map_of_dashEmpty:
  "map_of (dashEmpty sg) key =
     (if map_of sg key = Some (JStr []) then Some (JStr ''-'') else map_of sg key)"
  by (induction sg) (auto simp: dashEmpty_def)

lemma keys_dashEmpty: "map fst (dashEmpty sg) = map fst sg"
  by (induction sg) (auto simp: dashEmpty_def)

lemma displaySong_song:
  assumes "channel msg = Some ch"
  shows "fst (displaySong gw msg sg w) = dashEmpty sg"
  using assms
  by (simp add: displaySong_def buildSongEmbed_def Let_def split: prod.splits)

lemma displaySong_Session:
  assumes "displaySong gw msg sg w = (sg', Session s)"
  shows "song s = dashEmpty sg \<and> sg' = dashEmpty sg \<and> channel msg = Some (song_channel s) \<and>
         \<not> upEnded s \<and> \<not> downEnded s \<and> \<not> poopEnded s \<and> pending s = [] \<and> ratingCalls s = []"
  using assms
  by (auto simp: displaySong_def buildSongEmbed_def Let_def
           split: option.splits if_splits prod.splits)

lemma settle_Resolves_song:
  assumes "i < length (pending s)" and "pending s ! i = Resolves note"
  shows "song (settle i s) = dashEmpty (song s) \<and>
         edits (gw_log (settle i s)) =
           edits (gw_log s) @ [Embed (fst (buildSongEmbed (song s)))]"
  using assms
  by (auto simp: settle_def buildSongEmbed_def Let_def request_def emit_def edits_def
           reaction_message_def simpleNote_Some comp_def
           split: option.splits)

text \<open>
  C10. \<open>buildSongEmbed\<close> changes the song it is given: the song has the same properties
  afterwards, each with the value it had, except that every property that was \<open>""\<close> is
  \<open>"-"\<close>; the embed shows the song so changed. That happens at the first render
  (\<open>displaySong\<close> on an available channel hands the changed song back) and at every
  re-render after a vote (when a scoring promise resolves, the session's song is the
  changed one and the embed built from it is what is sent as the edit).
\<close>

theorem buildSongEmbed_mutates_song:
  "map fst (snd (buildSongEmbed sg)) = map fst sg \<and>
   (\<forall>key. map_of (snd (buildSongEmbed sg)) key =
      (if map_of sg key = Some (JStr []) then Some (JStr ''-'') else map_of sg key)) \<and>
   fst (buildSongEmbed sg) = fst (buildSongEmbed (snd (buildSongEmbed sg))) \<and>
   (channel msg = Some ch \<longrightarrow> fst (displaySong gw msg sg w) = snd (buildSongEmbed sg)) \<and>
   (i < length (pending s) \<and> pending s ! i = Resolves note \<longrightarrow>
      song (r_step cb (Settle i) s) = snd (buildSongEmbed (song s)) \<and>
      edits (gw_log (r_step cb (Settle i) s)) =
        edits (gw_log s) @ [Embed (fst (buildSongEmbed (song s)))])"
proof -
  have idem: "dashEmpty (dashEmpty sg) = dashEmpty sg"
    by (induction sg) (auto simp: dashEmpty_def)
  have a: "snd (buildSongEmbed sg) = dashEmpty sg"
    by (simp add: buildSongEmbed_def Let_def)
  have b: "fst (buildSongEmbed sg) = fst (buildSongEmbed (snd (buildSongEmbed sg)))"
    by (simp add: buildSongEmbed_def Let_def idem)
  have c: "snd (buildSongEmbed (song s)) = dashEmpty (song s)"
    by (simp add: buildSongEmbed_def Let_def)
  show ?thesis
    using a b c map_of_dashEmpty [of sg] keys_dashEmpty [of sg]
      displaySong_song [of msg ch gw sg w] settle_Resolves_song [of i s "note"]
    by simp
qed

section \<open>Properties of rating sessions\<close>

lemma displaySong_rating0: "displaySong gw0 msg0 song0 w0 = (song1, Session rating0)"
  by (simp add: displaySong_def gw0_def msg0_def w0_def song0_def song1_def rating0_def
      embed1_def buildSongEmbed_def dashEmpty_def debugPrint_def request_def emit_def Let_def)

lemma rate_fields:
  "ratingCalls (rate cb r d icd s u) = ratingCalls s @ [(u, d, icd)] \<and>
   gw_log (rate cb r d icd s u) = gw_log s @ [Req (RemoveUser (emoji_name r) u)] \<and>
   console (rate cb r d icd s u) = console s \<and>
   song_channel (rate cb r d icd s u) = song_channel s \<and>
   upEnded (rate cb r d icd s u) = upEnded s \<and>
   downEnded (rate cb r d icd s u) = downEnded s \<and>
   poopEnded (rate cb r d icd s u) = poopEnded s"
  by (simp add: rate_def request_def emit_def Let_def split: prod.splits)

lemma foldl_rate_fields:
  "ratingCalls (foldl (rate cb r d icd) s us) = ratingCalls s @ map (\<lambda>u. (u, d, icd)) us \<and>
   gw_log (foldl (rate cb r d icd) s us) = gw_log s @ map (\<lambda>u. Req (RemoveUser (emoji_name r) u)) us \<and>
   console (foldl (rate cb r d icd) s us) = console s \<and>
   song_channel (foldl (rate cb r d icd) s us) = song_channel s \<and>
   upEnded (foldl (rate cb r d icd) s us) = upEnded s \<and>
   downEnded (foldl (rate cb r d icd) s us) = downEnded s \<and>
   poopEnded (foldl (rate cb r d icd) s us) = poopEnded s"
proof (induction us arbitrary: s)
  case Nil
  show ?case by simp
next
  case (Cons u us)
  show ?case using Cons [of "rate cb r d icd s u"] rate_fields [of cb r d icd s u] by simp
qed

lemma handle_fields:
  "ratingCalls (handleRatingReaction cb r d icd s) =
     ratingCalls s @ map (\<lambda>u. (u, d, icd)) (filter (\<lambda>u. \<not> bot u) (users r)) \<and>
   gw_log (handleRatingReaction cb r d icd s) =
     gw_log s @ map (\<lambda>u. Req (RemoveUser (emoji_name r) u)) (filter (\<lambda>u. \<not> bot u) (users r)) \<and>
   console (handleRatingReaction cb r d icd s) = console s \<and>
   song_channel (handleRatingReaction cb r d icd s) = song_channel s \<and>
   upEnded (handleRatingReaction cb r d icd s) = upEnded s \<and>
   downEnded (handleRatingReaction cb r d icd s) = downEnded s \<and>
   poopEnded (handleRatingReaction cb r d icd s) = poopEnded s"
  unfolding handleRatingReaction_def by (rule foldl_rate_fields)

lemma note_in_session:
  "snd (simpleNote (reaction_message s) t ty s) =
     s\<lparr>console := console s @ [PText t],
       gw_log := gw_log s @ map (\<lambda>l. Req (Send (song_channel s) (note_line ty l))) (split_lines t)\<rparr>"
  by (simp add: simpleNote_Some reaction_message_def)

lemma split_poop_note: "split_lines poop_note = [poop_note]"
  by (rule split_lines_one) (simp add: poop_note_def)

lemma onPoop_fields:
  "ratingCalls (onPoop cb r s) =
     ratingCalls s @ map (\<lambda>u. (u, - 1000, True)) (filter (\<lambda>u. \<not> bot u) (users r)) \<and>
   gw_log (onPoop cb r s) =
     gw_log s @ [Req (Send (song_channel s) (note_line MUSIC poop_note))] @
       map (\<lambda>u. Req (RemoveUser (emoji_name r) u)) (filter (\<lambda>u. \<not> bot u) (users r)) \<and>
   upEnded (onPoop cb r s) = upEnded s \<and>
   downEnded (onPoop cb r s) = downEnded s \<and>
   poopEnded (onPoop cb r s) = poopEnded s"
  by (simp add: onPoop_def Let_def handle_fields note_in_session split_poop_note)

lemma settle_fields:
  "ratingCalls (settle i s) = ratingCalls s \<and>
   upEnded (settle i s) = upEnded s \<and>
   downEnded (settle i s) = downEnded s \<and>
   poopEnded (settle i s) = poopEnded s"
  by (simp add: settle_def Let_def request_def emit_def note_in_session
       split: outcome.splits option.splits prod.splits)

lemma r_step_ended:
  "upEnded s \<longrightarrow> upEnded (r_step cb ev s)"
  by (cases ev)
     (simp_all add: Let_def onUp_def onDown_def handle_fields onPoop_fields onEnd_def
        request_def emit_def gwAck_def settle_fields split: list.splits)

lemma r_step_calls:
  "\<exists>d icd us. (d = 1 \<or> d = - 1 \<or> d = - 1000) \<and> (\<forall>u \<in> set us. \<not> bot u) \<and>
      ratingCalls (r_step cb ev s) = ratingCalls s @ map (\<lambda>u. (u, d, icd)) us"
proof (cases ev)
  case (Reaction r u)
  show ?thesis
  proof (cases "\<not> upEnded s \<and> ratingFilter UpArrow r u")
    case True
    then have "ratingCalls (r_step cb ev s) =
       ratingCalls s @ map (\<lambda>u. (u, 1, False)) (filter (\<lambda>u. \<not> bot u) (users r))"
      using Reaction by (simp add: ratingFilter_def onUp_def handle_fields)
    then show ?thesis by (intro exI [of _ 1] exI [of _ False] exI [of _ "filter (\<lambda>u. \<not> bot u) (users r)"]) simp
  next
    case nu: False
    show ?thesis
    proof (cases "\<not> downEnded s \<and> ratingFilter DownArrow r u")
      case True
      then have "ratingCalls (r_step cb ev s) =
         ratingCalls s @ map (\<lambda>u. (u, - 1, False)) (filter (\<lambda>u. \<not> bot u) (users r))"
        using Reaction nu by (auto simp add: ratingFilter_def onDown_def handle_fields)
      then show ?thesis by (intro exI [of _ "- 1"] exI [of _ False] exI [of _ "filter (\<lambda>u. \<not> bot u) (users r)"]) simp
    next
      case nd: False
      show ?thesis
      proof (cases "\<not> poopEnded s \<and> ratingFilter Poop r u")
        case True
        then have "ratingCalls (r_step cb ev s) =
           ratingCalls s @ map (\<lambda>u. (u, - 1000, True)) (filter (\<lambda>u. \<not> bot u) (users r))"
          using Reaction nu nd by (auto simp add: ratingFilter_def onPoop_fields)
        then show ?thesis by (intro exI [of _ "- 1000"] exI [of _ True] exI [of _ "filter (\<lambda>u. \<not> bot u) (users r)"]) simp
      next
        case False
        then have "ratingCalls (r_step cb ev s) = ratingCalls s"
          using Reaction nu nd by auto
        then show ?thesis by (intro exI [of _ 1] exI [of _ False] exI [of _ "[]"]) simp
      qed
    qed
  qed
next
  case (Timeout c)
  then have "ratingCalls (r_step cb ev s) = ratingCalls s"
    by (simp add: onEnd_def request_def emit_def)
  then show ?thesis by (intro exI [of _ 1] exI [of _ False] exI [of _ "[]"]) simp
next
  case (Settle i)
  then have "ratingCalls (r_step cb ev s) = ratingCalls s"
    by (simp add: settle_fields)
  then show ?thesis by (intro exI [of _ 1] exI [of _ False] exI [of _ "[]"]) simp
next
  case GwAck
  then have "ratingCalls (r_step cb ev s) = ratingCalls s"
    by (simp add: gwAck_def emit_def split: list.splits)
  then show ?thesis by (intro exI [of _ 1] exI [of _ False] exI [of _ "[]"]) simp
qed


lemma r_run_snoc: "r_run cb (evs @ [ev]) s = r_step cb ev (r_run cb evs s)"
  by (simp add: r_run_def)

lemma r_run_calls:
  assumes "\<forall>c \<in> set (ratingCalls s). \<not> bot (fst c) \<and> (fst (snd c) = 1 \<or> fst (snd c) = - 1 \<or> fst (snd c) = - 1000)"
  shows "\<forall>c \<in> set (ratingCalls (r_run cb evs s)).
           \<not> bot (fst c) \<and> (fst (snd c) = 1 \<or> fst (snd c) = - 1 \<or> fst (snd c) = - 1000)"
proof (induction evs rule: rev_induct)
  case Nil
  show ?case using assms by (simp add: r_run_def)
next
  case (snoc ev evs)
  obtain d icd us where st: "d = 1 \<or> d = - 1 \<or> d = - 1000" "\<forall>u \<in> set us. \<not> bot u"
    "ratingCalls (r_step cb ev (r_run cb evs s)) =
       ratingCalls (r_run cb evs s) @ map (\<lambda>u. (u, d, icd)) us"
    using r_step_calls [of cb ev "r_run cb evs s"] by blast
  show ?case
    unfolding r_run_snoc st(3) using snoc st(1,2) by auto
qed

lemma bot_ignored: "bot u \<Longrightarrow> r_step cb (Reaction r u) s = s"
  by (simp add: ratingFilter_def)

text \<open>
  C5. In the session \<open>displaySong\<close> opens, after any sequence of events, every call of
  the scoring callback so far was for a user that is not a bot and with delta 1, -1 or
  -1000. A reaction by a bot changes nothing in the session, so it reaches no callback.
  A reaction by a user that is not a bot, on an open collector, calls the callback once
  for each user of \<open>reaction.users\<close> that is not a bot: with delta 1 for up, -1 for down,
  -1000 (and \<open>ignoreCd\<close>) for the flag.
\<close>

theorem rating_votes_human_only:
  assumes "displaySong gw msg sg w = (sg', Session s0)" and "s = r_run cb evs s0"
  shows "(\<forall>(v, d, icd) \<in> set (ratingCalls s). \<not> bot v \<and> (d = 1 \<or> d = - 1 \<or> d = - 1000)) \<and>
         (bot u \<longrightarrow> r_step cb (Reaction r u) s = s) \<and>
         (\<not> bot u \<and> emoji_name r = UpArrow \<and> \<not> upEnded s \<longrightarrow>
            ratingCalls (r_step cb (Reaction r u) s) =
              ratingCalls s @ map (\<lambda>v. (v, 1, False)) (filter (\<lambda>v. \<not> bot v) (users r))) \<and>
         (\<not> bot u \<and> emoji_name r = DownArrow \<and> \<not> downEnded s \<longrightarrow>
            ratingCalls (r_step cb (Reaction r u) s) =
              ratingCalls s @ map (\<lambda>v. (v, - 1, False)) (filter (\<lambda>v. \<not> bot v) (users r))) \<and>
         (\<not> bot u \<and> emoji_name r = Poop \<and> \<not> poopEnded s \<longrightarrow>
            ratingCalls (r_step cb (Reaction r u) s) =
              ratingCalls s @ map (\<lambda>v. (v, - 1000, True)) (filter (\<lambda>v. \<not> bot v) (users r)))"
proof -
  have "ratingCalls s0 = []" using displaySong_Session [OF assms(1)] by simp
  then have "\<forall>c \<in> set (ratingCalls s).
           \<not> bot (fst c) \<and> (fst (snd c) = 1 \<or> fst (snd c) = - 1 \<or> fst (snd c) = - 1000)"
    using r_run_calls [of s0 cb evs] assms(2) by simp
  then have a: "\<forall>(v, d, icd) \<in> set (ratingCalls s). \<not> bot v \<and> (d = 1 \<or> d = - 1 \<or> d = - 1000)"
    by fastforce
  have b: "bot u \<longrightarrow> r_step cb (Reaction r u) s = s" using bot_ignored by blast
  have c: "\<not> bot u \<and> emoji_name r = UpArrow \<and> \<not> upEnded s \<longrightarrow>
            ratingCalls (r_step cb (Reaction r u) s) =
              ratingCalls s @ map (\<lambda>v. (v, 1, False)) (filter (\<lambda>v. \<not> bot v) (users r))"
    by (simp add: ratingFilter_def onUp_def handle_fields)
  have d: "\<not> bot u \<and> emoji_name r = DownArrow \<and> \<not> downEnded s \<longrightarrow>
            ratingCalls (r_step cb (Reaction r u) s) =
              ratingCalls s @ map (\<lambda>v. (v, - 1, False)) (filter (\<lambda>v. \<not> bot v) (users r))"
    by (simp add: ratingFilter_def onDown_def handle_fields)
  have e: "\<not> bot u \<and> emoji_name r = Poop \<and> \<not> poopEnded s \<longrightarrow>
            ratingCalls (r_step cb (Reaction r u) s) =
              ratingCalls s @ map (\<lambda>v. (v, - 1000, True)) (filter (\<lambda>v. \<not> bot v) (users r))"
    by (simp add: ratingFilter_def onPoop_fields)
  show ?thesis using a b c d e by blast
qed

lemma edits_append: "edits (xs @ ys) = edits xs @ edits ys"
  by (simp add: edits_def)

lemma sends_append: "sends (xs @ ys) = sends xs @ sends ys"
  by (simp add: sends_def)

lemma edits_of_sends: "edits (map (\<lambda>l. Req (Send ch (f l))) ls) = []"
  by (induction ls) (simp_all add: edits_def)

lemma sends_of_sends: "sends (map (\<lambda>l. Req (Send ch (f l))) ls) = map f ls"
  by (induction ls) (simp_all add: sends_def)

lemma sends_of_removes: "sends (map (\<lambda>u. Req (RemoveUser e u)) us) = []"
  by (induction us) (simp_all add: sends_def)

text \<open>
  C7. When the scoring promise of a vote rejects, the session's collectors are as they
  were (the session stays open), no edit is requested and the song is untouched, and
  \<open>simpleNote\<close> is called once with the failure kind: the log grows by one \<open>:x:\<close> line
  for each line of the error text, exactly one when the text has no line break. The other
  pending votes stay pending.
\<close>

theorem scoring_failure_is_local:
  assumes "i < length (pending s)" and "pending s ! i = Rejects err"
    and "s' = r_step cb (Settle i) s"
  shows "r_open s' = r_open s \<and>
         song s' = song s \<and>
         edits (gw_log s') = edits (gw_log s) \<and>
         gw_log s' = gw_log s @
           map (\<lambda>l. Req (Send (song_channel s) (Text ('':x: | '' @ l)))) (split_lines err) \<and>
         (CHR 0x0A \<notin> set err \<longrightarrow>
            gw_log s' = gw_log s @ [Req (Send (song_channel s) (Text ('':x: | '' @ err)))]) \<and>
         pending s' = take i (pending s) @ drop (Suc i) (pending s) \<and>
         ratingCalls s' = ratingCalls s"
proof -
  have eq: "s' = s\<lparr>pending := take i (pending s) @ drop (Suc i) (pending s),
                  console := console s @ [PText err],
                  gw_log := gw_log s @
                    map (\<lambda>l. Req (Send (song_channel s) (note_line FAIL l))) (split_lines err)\<rparr>"
    using assms by (simp add: settle_def Let_def note_in_session)
  have l: "gw_log s' = gw_log s @
           map (\<lambda>l. Req (Send (song_channel s) (Text ('':x: | '' @ l)))) (split_lines err)"
    unfolding eq by simp
  have e: "edits (gw_log s') = edits (gw_log s)"
    unfolding l edits_append edits_of_sends by simp
  show ?thesis
    using l e unfolding eq by (simp add: r_open_def split_lines_one)
qed

text \<open>
  C1, amended. A flag vote by a user that is not a bot, while the flag collector is open,
  sends exactly one music-kind note (\<open>poop_note\<close>), then asks to remove the reaction of
  every user of \<open>reaction.users\<close> that is not a bot (the acting user's, when it is among
  them) and calls the scoring callback for each with delta -1000 and \<open>ignoreCd\<close>. It ends
  no collector: the open subscriptions are the same after the vote as before.
\<close>

theorem flag_vote_keeps_session_open:
  assumes "\<not> bot u" and "emoji_name r = Poop" and "\<not> poopEnded s"
    and "s' = r_step cb (Reaction r u) s"
  shows "r_open s' = r_open s \<and>
         gw_log s' = gw_log s @
           [Req (Send (song_channel s) (Text ('':musical_note: | '' @ poop_note)))] @
           map (\<lambda>v. Req (RemoveUser Poop v)) (filter (\<lambda>v. \<not> bot v) (users r)) \<and>
         sends (gw_log s') = sends (gw_log s) @ [Text ('':musical_note: | '' @ poop_note)] \<and>
         (u \<in> set (users r) \<longrightarrow> Req (RemoveUser Poop u) \<in> set (gw_log s')) \<and>
         ratingCalls s' =
           ratingCalls s @ map (\<lambda>v. (v, - 1000, True)) (filter (\<lambda>v. \<not> bot v) (users r))"
proof -
  have st: "s' = onPoop cb r s"
    using assms by (simp add: ratingFilter_def)
  have l: "gw_log s' = gw_log s @
           [Req (Send (song_channel s) (Text ('':musical_note: | '' @ poop_note)))] @
           map (\<lambda>v. Req (RemoveUser Poop v)) (filter (\<lambda>v. \<not> bot v) (users r))"
    unfolding st using assms(2) by (simp add: onPoop_fields)
  have n: "sends (gw_log s') = sends (gw_log s) @ [Text ('':musical_note: | '' @ poop_note)]"
    unfolding l sends_append sends_of_removes by (simp add: sends_def)
  have m: "u \<in> set (users r) \<longrightarrow> Req (RemoveUser Poop u) \<in> set (gw_log s')"
    unfolding l using assms(1) by simp
  have c: "ratingCalls s' =
           ratingCalls s @ map (\<lambda>v. (v, - 1000, True)) (filter (\<lambda>v. \<not> bot v) (users r))"
    unfolding st by (simp add: onPoop_fields)
  have op: "r_open s' = r_open s"
    unfolding st by (simp add: r_open_def onPoop_fields)
  show ?thesis using l n m c op by blast
qed

lemma run_flag:
  "r_run cb0 [vote Poop alice, Settle 0] rating0 =
     rating0\<lparr>gw_log := gw_log rating0 @
         [Req (Send 3 (Text ('':musical_note: | '' @ poop_note))),
          Req (RemoveUser Poop alice),
          Req (Edit (Embed (MessageEmbed 890629
            [Field ''Title'' (Some (JStr ''A'')) True, Field ''Artist'' (Some (JStr ''-'')) True,
             BlankField,
             Field ''Requester'' (Some (JStr ''alice'')) True,
             Field ''Rating'' (Some (JNum (- 1000))) True,
             Field ''Source'' (Some (JStr ''yt'')) True])))],
       console := console rating0 @ [PText poop_note],
       song := [(''title'', JStr ''A''), (''artist'', JStr ''-''), (''requester'', JStr ''alice''),
            (''rating'', JNum (- 1000)), (''src'', JStr ''yt'')],
       ratingCalls := [(alice, - 1000, True)]\<rparr>"
  by (simp add: r_run_def vote_def ratingFilter_def onPoop_def handleRatingReaction_def rate_def
      note_in_session split_poop_note cb0_def bump_def settle_def buildSongEmbed_def dashEmpty_def
      request_def emit_def Let_def rating0_def song1_def alice_def robot_def)

text \<open>
  C1 as stated fails: after a flag vote by \<open>alice\<close>, and after its scoring promise has
  resolved, all three collectors of the session are still open.
\<close>

theorem flag_vote_closes_session_counterexample:
  "ratingCalls (r_run cb0 [vote Poop alice, Settle 0] rating0) = [(alice, - 1000, True)] \<and>
   pending (r_run cb0 [vote Poop alice, Settle 0] rating0) = [] \<and>
   r_open (r_run cb0 [vote Poop alice, Settle 0] rating0) = [UpC, DownC, PoopC]"
  unfolding run_flag by (simp add: r_open_def rating0_def)


lemma run_up_alice:
  "r_run cb0 [vote UpArrow alice] rating0 =
     rating0\<lparr>gw_log := gw_log rating0 @ [Req (RemoveUser UpArrow alice)],
       song := [(''title'', JStr ''A''), (''artist'', JStr ''-''), (''requester'', JStr ''alice''),
            (''rating'', JNum 1), (''src'', JStr ''yt'')],
       pending := [Resolves None],
       ratingCalls := [(alice, 1, False)]\<rparr>"
  by (simp add: r_run_def vote_def ratingFilter_def onUp_def handleRatingReaction_def rate_def
      cb0_def bump_def request_def emit_def Let_def rating0_def song1_def alice_def robot_def)

lemma run_up_bob:
  "r_run cb0 [vote UpArrow bob] rating0 =
     rating0\<lparr>gw_log := gw_log rating0 @ [Req (RemoveUser UpArrow bob)],
       pending := [Rejects ''cooldown''],
       ratingCalls := [(bob, 1, False)]\<rparr>"
  by (simp add: r_run_def vote_def ratingFilter_def onUp_def handleRatingReaction_def rate_def
      cb0_def bump_def request_def emit_def Let_def rating0_def song1_def bob_def robot_def)

theorem rating_votes_human_only_witness:
  "displaySong gw0 msg0 song0 w0 = (song1, Session rating0) \<and>
   ratingCalls (r_run cb0 [vote UpArrow alice] rating0) = [(alice, 1, False)] \<and>
   \<not> bot alice \<and> bot robot \<and>
   r_step cb0 (vote UpArrow robot) (r_run cb0 [vote UpArrow alice] rating0) =
     r_run cb0 [vote UpArrow alice] rating0"
proof -
  let ?s = "r_run cb0 [vote UpArrow alice] rating0"
  let ?r = "\<lparr>emoji_name = UpArrow, users = [robot, robot]\<rparr>"
  note t = rating_votes_human_only [where evs = "[vote UpArrow alice]" and cb = cb0
      and u = robot and r = ?r, OF displaySong_rating0 refl]
  have c: "ratingCalls ?s = [(alice, 1, False)]"
    unfolding run_up_alice by simp
  have "\<forall>(v, d, icd) \<in> set (ratingCalls ?s). \<not> bot v \<and> (d = 1 \<or> d = - 1 \<or> d = - 1000)"
    using t by blast
  then have h: "\<not> bot alice" unfolding c by simp
  have b: "bot robot" by (simp add: robot_def)
  have "r_step cb0 (Reaction ?r robot) ?s = ?s" using t b by blast
  then have "r_step cb0 (vote UpArrow robot) ?s = ?s" by (simp add: vote_def)
  then show ?thesis using displaySong_rating0 c h b by simp
qed

theorem scoring_failure_is_local_witness:
  "0 < length (pending (r_run cb0 [vote UpArrow bob] rating0)) \<and>
   pending (r_run cb0 [vote UpArrow bob] rating0) ! 0 = Rejects ''cooldown'' \<and>
   r_open (r_run cb0 [vote UpArrow bob, Settle 0] rating0) = [UpC, DownC, PoopC] \<and>
   gw_log (r_run cb0 [vote UpArrow bob, Settle 0] rating0) =
     gw_log rating0 @ [Req (RemoveUser UpArrow bob), Req (Send 3 (Text '':x: | cooldown''))] \<and>
   song (r_run cb0 [vote UpArrow bob, Settle 0] rating0) = song1"
proof -
  let ?s = "r_run cb0 [vote UpArrow bob] rating0"
  have p: "0 < length (pending ?s)" "pending ?s ! 0 = Rejects ''cooldown''"
    unfolding run_up_bob by simp_all
  have nl: "CHR 0x0A \<notin> set ''cooldown''" by simp
  have r: "r_run cb0 [vote UpArrow bob, Settle 0] rating0 = r_step cb0 (Settle 0) ?s"
    using r_run_snoc [of cb0 "[vote UpArrow bob]" "Settle 0" rating0] by simp
  note t = scoring_failure_is_local [OF p r]
  have o: "r_open ?s = [UpC, DownC, PoopC]" "song_channel ?s = 3" "song ?s = song1"
    "gw_log ?s = gw_log rating0 @ [Req (RemoveUser UpArrow bob)]"
    unfolding run_up_bob by (simp_all add: r_open_def rating0_def)
  have "r_open (r_run cb0 [vote UpArrow bob, Settle 0] rating0) = r_open ?s \<and>
        song (r_run cb0 [vote UpArrow bob, Settle 0] rating0) = song ?s \<and>
        gw_log (r_run cb0 [vote UpArrow bob, Settle 0] rating0) =
          gw_log ?s @ [Req (Send (song_channel ?s) (Text ('':x: | '' @ ''cooldown'')))]"
    using t nl by blast
  then show ?thesis using p o by simp
qed

theorem flag_vote_keeps_session_open_witness:
  "\<not> bot alice \<and> \<not> poopEnded rating0 \<and>
   r_open (r_run cb0 [vote Poop alice] rating0) = [UpC, DownC, PoopC] \<and>
   gw_log (r_run cb0 [vote Poop alice] rating0) =
     gw_log rating0 @ [Req (Send 3 (Text ('':musical_note: | '' @ poop_note))),
                       Req (RemoveUser Poop alice)] \<and>
   ratingCalls (r_run cb0 [vote Poop alice] rating0) = [(alice, - 1000, True)]"
proof -
  let ?r = "\<lparr>emoji_name = Poop, users = [robot, alice]\<rparr>"
  have h: "\<not> bot alice" "emoji_name ?r = Poop" "\<not> poopEnded rating0"
    by (simp_all add: alice_def rating0_def)
  have r: "r_run cb0 [vote Poop alice] rating0 = r_step cb0 (Reaction ?r alice) rating0"
    by (simp add: r_run_def vote_def)
  note t = flag_vote_keeps_session_open [OF h r]
  have o: "r_open rating0 = [UpC, DownC, PoopC]" "song_channel rating0 = 3"
    "ratingCalls rating0 = []"
    by (simp_all add: r_open_def rating0_def)
  have f: "filter (\<lambda>v. \<not> bot v) (users ?r) = [alice]"
    by (simp add: alice_def robot_def)
  show ?thesis using t h o unfolding f by simp
qed

section \<open>Properties of teardown\<close>

lemma view_after_snoc: "view_after (evs @ [ev]) v = gw_apply (view_after evs v) ev"
  by (simp add: view_after_def)

lemma onEnd_log: "gw_log (onEnd w) = gw_log w @ [Req RemoveAll]"
  by (simp add: onEnd_def request_def emit_def)

lemma sends_snoc_RemoveAll: "sends (evs @ [Req RemoveAll]) = sends evs"
  by (simp add: sends_def)

lemma r_timeout_cases:
  "r_step cb (Timeout c) s = s \<or>
   gw_log (r_step cb (Timeout c) s) = gw_log s @ [Req RemoveAll]"
  by (simp add: onEnd_def request_def emit_def)

lemma p_timeout_cases:
  "p_step (Timeout c) s = s \<or>
   gw_log (p_step (Timeout c) s) = gw_log s @ [Req RemoveAll]"
  by (simp add: onEnd_def request_def emit_def)

lemma r_timeout_open:
  "c \<in> set (r_open s) \<Longrightarrow> gw_log (r_step cb (Timeout c) s) = gw_log s @ [Req RemoveAll] \<and>
     r_step cb (Timeout c) (r_step cb (Timeout c) s) = r_step cb (Timeout c) s"
  by (cases c) (auto simp: r_open_def onEnd_def request_def emit_def split: if_splits)

lemma p_timeout_open:
  "c \<in> set (p_open s) \<Longrightarrow> gw_log (p_step (Timeout c) s) = gw_log s @ [Req RemoveAll] \<and>
     p_step (Timeout c) (p_step (Timeout c) s) = p_step (Timeout c) s"
  by (cases c) (auto simp: p_open_def onEnd_def request_def emit_def split: if_splits)

text \<open>
  C9. Teardown is the \<open>end\<close> handler of a collector, \<open>reactions.removeAll()\<close>. Run twice,
  it leaves the Gateway's message as one run does (every icon stripped, what is shown
  untouched), sends no note and writes nothing to the console; the log holds the two
  \<open>removeAll\<close> requests. The handler has no failing branch. The same holds for the two
  ways it runs twice in a session: the timers of two collectors of the session run out one
  after the other, or the timer of one collector fires again, which changes nothing at
  all.
\<close>

theorem teardown_twice_as_once:
  "view_after (gw_log (onEnd (onEnd w))) v = view_after (gw_log (onEnd w)) v \<and>
   icons (view_after (gw_log (onEnd (onEnd w))) v) = [] \<and>
   sends (gw_log (onEnd (onEnd w))) = sends (gw_log w) \<and>
   gw_log (onEnd (onEnd w)) = gw_log w @ [Req RemoveAll, Req RemoveAll] \<and>
   console (onEnd (onEnd w)) = console w \<and>
   (c \<in> set (r_open s) \<longrightarrow>
      view_after (gw_log (r_step cb (Timeout c') (r_step cb (Timeout c) s))) v =
        view_after (gw_log (r_step cb (Timeout c) s)) v \<and>
      sends (gw_log (r_step cb (Timeout c') (r_step cb (Timeout c) s))) = sends (gw_log s) \<and>
      r_step cb (Timeout c) (r_step cb (Timeout c) s) = r_step cb (Timeout c) s) \<and>
   (c \<in> set (p_open t) \<longrightarrow>
      view_after (gw_log (p_step (Timeout c') (p_step (Timeout c) t))) v =
        view_after (gw_log (p_step (Timeout c) t)) v \<and>
      sends (gw_log (p_step (Timeout c') (p_step (Timeout c) t))) = sends (gw_log t) \<and>
      p_step (Timeout c) (p_step (Timeout c) t) = p_step (Timeout c) t)"
proof -
  have h: "view_after (gw_log (onEnd (onEnd w))) v = view_after (gw_log (onEnd w)) v \<and>
   icons (view_after (gw_log (onEnd (onEnd w))) v) = [] \<and>
   sends (gw_log (onEnd (onEnd w))) = sends (gw_log w) \<and>
   gw_log (onEnd (onEnd w)) = gw_log w @ [Req RemoveAll, Req RemoveAll] \<and>
   console (onEnd (onEnd w)) = console w"
    by (simp add: onEnd_def request_def emit_def view_after_def sends_def)
  have r: "c \<in> set (r_open s) \<longrightarrow>
      view_after (gw_log (r_step cb (Timeout c') (r_step cb (Timeout c) s))) v =
        view_after (gw_log (r_step cb (Timeout c) s)) v \<and>
      sends (gw_log (r_step cb (Timeout c') (r_step cb (Timeout c) s))) = sends (gw_log s) \<and>
      r_step cb (Timeout c) (r_step cb (Timeout c) s) = r_step cb (Timeout c) s"
  proof
    assume o: "c \<in> set (r_open s)"
    let ?s1 = "r_step cb (Timeout c) s"
    have l1: "gw_log ?s1 = gw_log s @ [Req RemoveAll]" using r_timeout_open [OF o] by blast
    have "r_step cb (Timeout c') ?s1 = ?s1 \<or>
          gw_log (r_step cb (Timeout c') ?s1) = gw_log ?s1 @ [Req RemoveAll]"
      by (rule r_timeout_cases)
    then have "view_after (gw_log (r_step cb (Timeout c') ?s1)) v = view_after (gw_log ?s1) v \<and>
      sends (gw_log (r_step cb (Timeout c') ?s1)) = sends (gw_log s)"
    proof (rule disjE)
      assume e: "r_step cb (Timeout c') ?s1 = ?s1"
      show ?thesis unfolding e unfolding l1 by (simp add: sends_snoc_RemoveAll)
    next
      assume e: "gw_log (r_step cb (Timeout c') ?s1) = gw_log ?s1 @ [Req RemoveAll]"
      show ?thesis unfolding e unfolding l1 by (simp add: view_after_def sends_def)
    qed
    then show "view_after (gw_log (r_step cb (Timeout c') ?s1)) v = view_after (gw_log ?s1) v \<and>
      sends (gw_log (r_step cb (Timeout c') ?s1)) = sends (gw_log s) \<and>
      r_step cb (Timeout c) ?s1 = ?s1"
      using r_timeout_open [OF o] by blast
  qed
  have p: "c \<in> set (p_open t) \<longrightarrow>
      view_after (gw_log (p_step (Timeout c') (p_step (Timeout c) t))) v =
        view_after (gw_log (p_step (Timeout c) t)) v \<and>
      sends (gw_log (p_step (Timeout c') (p_step (Timeout c) t))) = sends (gw_log t) \<and>
      p_step (Timeout c) (p_step (Timeout c) t) = p_step (Timeout c) t"
  proof
    assume o: "c \<in> set (p_open t)"
    let ?s1 = "p_step (Timeout c) t"
    have l1: "gw_log ?s1 = gw_log t @ [Req RemoveAll]" using p_timeout_open [OF o] by blast
    have "p_step (Timeout c') ?s1 = ?s1 \<or>
          gw_log (p_step (Timeout c') ?s1) = gw_log ?s1 @ [Req RemoveAll]"
      by (rule p_timeout_cases)
    then have "view_after (gw_log (p_step (Timeout c') ?s1)) v = view_after (gw_log ?s1) v \<and>
      sends (gw_log (p_step (Timeout c') ?s1)) = sends (gw_log t)"
    proof (rule disjE)
      assume e: "p_step (Timeout c') ?s1 = ?s1"
      show ?thesis unfolding e unfolding l1 by (simp add: sends_snoc_RemoveAll)
    next
      assume e: "gw_log (p_step (Timeout c') ?s1) = gw_log ?s1 @ [Req RemoveAll]"
      show ?thesis unfolding e unfolding l1 by (simp add: view_after_def sends_def)
    qed
    then show "view_after (gw_log (p_step (Timeout c') ?s1)) v = view_after (gw_log ?s1) v \<and>
      sends (gw_log (p_step (Timeout c') ?s1)) = sends (gw_log t) \<and>
      p_step (Timeout c) ?s1 = ?s1"
      using p_timeout_open [OF o] by blast
  qed
  show ?thesis using h r p by blast
qed

theorem teardown_twice_as_once_witness:
  "NextC \<in> set (p_open paged0) \<and>
   view_after (gw_log (p_step (Timeout BackC) (p_step (Timeout NextC) paged0)))
       \<lparr>shown = Text ''a'', icons = []\<rparr> =
     \<lparr>shown = Text ''a'', icons = []\<rparr> \<and>
   view_after (gw_log (p_step (Timeout NextC) paged0)) \<lparr>shown = Text ''a'', icons = []\<rparr> =
     \<lparr>shown = Text ''a'', icons = []\<rparr> \<and>
   sends (gw_log (p_step (Timeout BackC) (p_step (Timeout NextC) paged0))) = [Text ''a'']"
proof -
  let ?v = "\<lparr>shown = Text ''a'', icons = []\<rparr>"
  have o: "NextC \<in> set (p_open paged0)" by (simp add: p_open_def paged0_def)
  have one: "view_after (gw_log (p_step (Timeout NextC) paged0)) ?v = ?v"
    by (simp add: paged0_def onEnd_def request_def emit_def view_after_def)
  have s0: "sends (gw_log paged0) = [Text ''a'']"
    by (simp add: sends_def paged0_def)
  have "view_after (gw_log (p_step (Timeout BackC) (p_step (Timeout NextC) paged0))) ?v =
        view_after (gw_log (p_step (Timeout NextC) paged0)) ?v \<and>
      sends (gw_log (p_step (Timeout BackC) (p_step (Timeout NextC) paged0))) =
        sends (gw_log paged0)"
    using teardown_twice_as_once [where c = NextC and c' = BackC and t = paged0 and v = ?v] o
    by blast
  then show ?thesis unfolding one s0 using o by simp
qed

section \<open>Properties of the order of events\<close>

lemma p_step_forget: "forget_log (p_step ev s) = forget_log (p_step ev (forget_log s))"
  by (cases ev)
     (simp_all add: forget_log_def onNext_def onBack_def onEnd_def gwAck_def request_def
        emit_def Let_def nextFilter_def backFilter_def split: list.splits)

lemma gwAck_forget: "forget_log (gwAck s) = forget_log s"
  by (simp add: forget_log_def gwAck_def emit_def split: list.splits)

lemma p_run_forget:
  "forget_log (p_run evs s) = forget_log (p_run (filter (\<lambda>e. e \<noteq> GwAck) evs) s)"
proof (induction evs rule: rev_induct)
  case Nil
  show ?case by simp
next
  case (snoc ev evs)
  show ?case
  proof (cases "ev = GwAck")
    case True
    then show ?thesis using snoc by (simp add: p_run_snoc gwAck_forget)
  next
    case False
    have "forget_log (p_step ev (p_run evs s)) =
          forget_log (p_step ev (forget_log (p_run evs s)))"
      by (rule p_step_forget)
    also have "\<dots> = forget_log (p_step ev (forget_log (p_run (filter (\<lambda>e. e \<noteq> GwAck) evs) s)))"
      using snoc by simp
    also have "\<dots> = forget_log (p_step ev (p_run (filter (\<lambda>e. e \<noteq> GwAck) evs) s))"
      by (rule p_step_forget [symmetric])
    finally show ?thesis using False by (simp add: p_run_snoc)
  qed
qed

lemma p_step_render:
  "\<exists>x. gw_log (p_step ev s) = gw_log s @ x \<and>
       (if edits x = [] then page (p_step ev s) = page s
        else last (edits x) = js_index (pages s) (page (p_step ev s)))"
proof (cases ev)
  case (Reaction r u)
  show ?thesis
  proof (cases "\<not> nextEnded s \<and> nextFilter (owner s) r u")
    case True
    then have nb: "\<not> backFilter (owner s) r u" by (auto simp: nextFilter_def backFilter_def)
    have st: "p_step ev s = onNext r s" using Reaction True nb
      by (simp add: onNext_def request_def emit_def Let_def)
    show ?thesis
    proof (cases "page s + 1 < int (length (pages s))")
      case True
      then show ?thesis unfolding st
        by (intro exI [of _ "[Req (RemoveUser (emoji_name r) (owner s)),
              Req (Edit (js_index (pages s) (page s + 1)))]"])
           (simp add: onNext_def request_def emit_def Let_def edits_def)
    next
      case False
      then show ?thesis unfolding st
        by (intro exI [of _ "[Req (RemoveUser (emoji_name r) (owner s))]"])
           (simp add: onNext_def request_def emit_def Let_def edits_def)
    qed
  next
    case nn: False
    show ?thesis
    proof (cases "\<not> backEnded s \<and> backFilter (owner s) r u")
      case True
      have st: "p_step ev s = onBack r s" using Reaction True nn by auto
      show ?thesis
      proof (cases "page s > 0")
        case True
        then show ?thesis unfolding st
          by (intro exI [of _ "[Req (RemoveUser (emoji_name r) (owner s)),
                Req (Edit (js_index (pages s) (page s - 1)))]"])
             (simp add: onBack_def request_def emit_def Let_def edits_def)
      next
        case False
        then show ?thesis unfolding st
          by (intro exI [of _ "[Req (RemoveUser (emoji_name r) (owner s))]"])
             (simp add: onBack_def request_def emit_def Let_def edits_def)
      qed
    next
      case False
      then have st: "p_step ev s = s" using Reaction nn by auto
      show ?thesis unfolding st by (intro exI [of _ "[]"]) (simp add: edits_def)
    qed
  qed
next
  case (Timeout c)
  have "p_step ev s = s \<or> gw_log (p_step ev s) = gw_log s @ [Req RemoveAll] \<and> page (p_step ev s) = page s"
    using Timeout by (simp add: onEnd_def request_def emit_def)
  then show ?thesis
  proof (rule disjE)
    assume e: "p_step ev s = s"
    show ?thesis unfolding e by (intro exI [of _ "[]"]) (simp add: edits_def)
  next
    assume "gw_log (p_step ev s) = gw_log s @ [Req RemoveAll] \<and> page (p_step ev s) = page s"
    then show ?thesis by (intro exI [of _ "[Req RemoveAll]"]) (simp add: edits_def)
  qed
next
  case (Settle i)
  then have e: "p_step ev s = s" by simp
  show ?thesis unfolding e by (intro exI [of _ "[]"]) (simp add: edits_def)
next
  case GwAck
  show ?thesis
  proof (cases "unacked (gw_log s) []")
    case Nil
    then have e: "p_step ev s = s" using GwAck by (simp add: gwAck_def)
    show ?thesis unfolding e by (intro exI [of _ "[]"]) (simp add: edits_def)
  next
    case (Cons c cs)
    then have "gw_log (p_step ev s) = gw_log s @ [Ack c] \<and> page (p_step ev s) = page s"
      using GwAck by (simp add: gwAck_def emit_def)
    then show ?thesis by (intro exI [of _ "[Ack c]"]) (simp add: edits_def)
  qed
qed

lemma p_run_render:
  "\<exists>new. gw_log (p_run evs s) = gw_log s @ new \<and>
       (if edits new = [] then page (p_run evs s) = page s
        else last (edits new) = js_index (pages s) (page (p_run evs s)))"
proof (induction evs rule: rev_induct)
  case Nil
  show ?case by (intro exI [of _ "[]"]) (simp add: p_run_def edits_def)
next
  case (snoc ev evs)
  let ?t = "p_run evs s"
  obtain new where n: "gw_log ?t = gw_log s @ new"
    "if edits new = [] then page ?t = page s else last (edits new) = js_index (pages s) (page ?t)"
    using snoc by blast
  obtain x where x: "gw_log (p_step ev ?t) = gw_log ?t @ x"
    "if edits x = [] then page (p_step ev ?t) = page ?t
     else last (edits x) = js_index (pages ?t) (page (p_step ev ?t))"
    using p_step_render [of ev ?t] by blast
  have pg: "pages ?t = pages s" using p_run_frame [of evs s] by simp
  have l: "gw_log (p_run (evs @ [ev]) s) = gw_log s @ (new @ x)"
    unfolding p_run_snoc x(1) n(1) by simp
  have "if edits (new @ x) = [] then page (p_run (evs @ [ev]) s) = page s
        else last (edits (new @ x)) = js_index (pages s) (page (p_run (evs @ [ev]) s))"
    using n(2) x(2) pg unfolding p_run_snoc edits_append by (simp split: if_splits)
  then show ?case using l by blast
qed


lemma rate_forget:
  "forget_log (rate cb r d icd s u) = forget_log (rate cb r d icd (forget_log s) u)"
  by (simp add: forget_log_def rate_def request_def emit_def Let_def split: prod.splits)

lemma foldl_rate_forget:
  "forget_log (foldl (rate cb r d icd) s us) =
   forget_log (foldl (rate cb r d icd) (forget_log s) us)"
proof (induction us arbitrary: s)
  case Nil
  show ?case by (simp add: forget_log_def)
next
  case (Cons u us)
  have "forget_log (foldl (rate cb r d icd) (rate cb r d icd s u) us) =
        forget_log (foldl (rate cb r d icd) (forget_log (rate cb r d icd s u)) us)"
    by (rule Cons)
  also have "\<dots> = forget_log (foldl (rate cb r d icd)
                       (forget_log (rate cb r d icd (forget_log s) u)) us)"
    using rate_forget [of cb r d icd s u] by simp
  also have "\<dots> = forget_log (foldl (rate cb r d icd) (rate cb r d icd (forget_log s) u) us)"
    by (rule Cons [symmetric])
  finally show ?case by simp
qed

lemma handle_forget:
  "forget_log (handleRatingReaction cb r d icd s) =
   forget_log (handleRatingReaction cb r d icd (forget_log s))"
  unfolding handleRatingReaction_def by (rule foldl_rate_forget)

lemma forget_fields:
  "upEnded (forget_log s) = upEnded s" "downEnded (forget_log s) = downEnded s"
  "poopEnded (forget_log s) = poopEnded s" "forget_log (forget_log w) = forget_log w"
  by (simp_all add: forget_log_def)

lemma note_forget:
  "forget_log (snd (simpleNote (reaction_message s) t ty s)) =
   forget_log (snd (simpleNote (reaction_message (forget_log s)) t ty (forget_log s)))"
  by (simp add: note_in_session forget_log_def)

lemma onPoop_forget: "forget_log (onPoop cb r s) = forget_log (onPoop cb r (forget_log s))"
proof -
  let ?n = "\<lambda>s. snd (simpleNote (reaction_message s) poop_note MUSIC s)"
  have "forget_log (onPoop cb r s) = forget_log (handleRatingReaction cb r (- 1000) True (forget_log (?n s)))"
    unfolding onPoop_def Let_def by (rule handle_forget)
  also have "\<dots> = forget_log (handleRatingReaction cb r (- 1000) True (forget_log (?n (forget_log s))))"
    using note_forget [of s poop_note MUSIC] by simp
  also have "\<dots> = forget_log (onPoop cb r (forget_log s))"
    unfolding onPoop_def Let_def by (rule handle_forget [symmetric])
  finally show ?thesis .
qed

lemma settle_forget: "forget_log (settle i s) = forget_log (settle i (forget_log s))"
  by (simp add: settle_def Let_def request_def emit_def note_in_session forget_log_def
       split: outcome.splits option.splits prod.splits)

lemma onEnd_forget: "forget_log (onEnd w) = forget_log w"
  by (simp add: onEnd_def request_def emit_def forget_log_def)

lemma r_step_Reaction:
  "r_step cb (Reaction r u) s =
     (if \<not> upEnded s \<and> ratingFilter UpArrow r u then onUp cb r s
      else if \<not> downEnded s \<and> ratingFilter DownArrow r u then onDown cb r s
      else if \<not> poopEnded s \<and> ratingFilter Poop r u then onPoop cb r s
      else s)"
  by (auto simp: Let_def ratingFilter_def)

lemma r_step_forget: "forget_log (r_step cb ev s) = forget_log (r_step cb ev (forget_log s))"
proof (cases ev)
  case (Reaction r u)
  have up: "forget_log (onUp cb r s) = forget_log (onUp cb r (forget_log s))"
    unfolding onUp_def by (rule handle_forget)
  have dn: "forget_log (onDown cb r s) = forget_log (onDown cb r (forget_log s))"
    unfolding onDown_def by (rule handle_forget)
  have pp: "forget_log (onPoop cb r s) = forget_log (onPoop cb r (forget_log s))"
    by (rule onPoop_forget)
  show ?thesis
  proof (cases "\<not> upEnded s \<and> ratingFilter UpArrow r u")
    case True
    then show ?thesis unfolding Reaction r_step_Reaction forget_fields
      by (simp only: up if_True simp_thms)
  next
    case nu: False
    show ?thesis
    proof (cases "\<not> downEnded s \<and> ratingFilter DownArrow r u")
      case True
      then show ?thesis using nu unfolding Reaction r_step_Reaction forget_fields
        by (simp only: dn if_True if_False simp_thms)
    next
      case nd: False
      show ?thesis
      proof (cases "\<not> poopEnded s \<and> ratingFilter Poop r u")
        case True
        then show ?thesis using nu nd unfolding Reaction r_step_Reaction forget_fields
          by (simp only: pp if_True if_False simp_thms)
      next
        case False
        then show ?thesis using nu nd unfolding Reaction r_step_Reaction forget_fields
          by (simp only: if_True if_False simp_thms forget_fields)
      qed
    qed
  qed
next
  case (Timeout c)
  then show ?thesis by (simp add: onEnd_def request_def emit_def forget_log_def)
next
  case (Settle i)
  then show ?thesis using settle_forget [of i s] by simp
next
  case GwAck
  have "forget_log (gwAck s) = forget_log (gwAck (forget_log s))"
    unfolding gwAck_forget forget_fields ..
  then show ?thesis using GwAck by simp
qed

lemma r_run_forget:
  "forget_log (r_run cb evs s) = forget_log (r_run cb (filter (\<lambda>e. e \<noteq> GwAck) evs) s)"
proof (induction evs rule: rev_induct)
  case Nil
  show ?case by simp
next
  case (snoc ev evs)
  show ?case
  proof (cases "ev = GwAck")
    case True
    then show ?thesis using snoc by (simp add: r_run_snoc gwAck_forget)
  next
    case False
    have "forget_log (r_step cb ev (r_run cb evs s)) =
          forget_log (r_step cb ev (forget_log (r_run cb evs s)))"
      by (rule r_step_forget)
    also have "\<dots> = forget_log (r_step cb ev (forget_log (r_run cb (filter (\<lambda>e. e \<noteq> GwAck) evs) s)))"
      using snoc by simp
    also have "\<dots> = forget_log (r_step cb ev (r_run cb (filter (\<lambda>e. e \<noteq> GwAck) evs) s))"
      by (rule r_step_forget [symmetric])
    finally show ?thesis using False by (simp add: r_run_snoc)
  qed
qed

text \<open>
  C3, amended. Within a session the handlers run one at a time in arrival order, each to
  its end, and none waits for a render: what a run leaves behind, apart from the Gateway
  log itself, is the same with the Gateway's acknowledgements taken out of the run, so an
  event's change (the cursor, or the scoring call and what it does to the song) is applied
  when the event arrives, whether or not earlier edits were acknowledged. In the paged
  session \<open>pagedContent\<close> opens, each cursor change asks for its edit in the same step: the
  latest edit asked for since the session opened shows the page at the cursor, so it
  reflects every delta in arrival order; with no edit yet, the cursor is 0.
\<close>

theorem reactions_applied_without_waiting:
  assumes "pagedContent gw msg ps w = Session s0"
  shows "p_run (evs @ evs') s0 = p_run evs' (p_run evs s0) \<and>
         forget_log (p_run evs s0) = forget_log (p_run (filter (\<lambda>e. e \<noteq> GwAck) evs) s0) \<and>
         (let new = drop (length (gw_log s0)) (gw_log (p_run evs s0))
          in if edits new = [] then page (p_run evs s0) = 0
             else last (edits new) = js_index ps (page (p_run evs s0))) \<and>
         r_run cb (evs @ evs') t = r_run cb evs' (r_run cb evs t) \<and>
         forget_log (r_run cb evs t) = forget_log (r_run cb (filter (\<lambda>e. e \<noteq> GwAck) evs) t)"
proof -
  have s0: "page s0 = 0" "pages s0 = ps"
    using pagedContent_Session [OF assms] by simp_all
  obtain new where n: "gw_log (p_run evs s0) = gw_log s0 @ new"
    "if edits new = [] then page (p_run evs s0) = page s0
     else last (edits new) = js_index (pages s0) (page (p_run evs s0))"
    using p_run_render [of evs s0] by blast
  have d: "drop (length (gw_log s0)) (gw_log (p_run evs s0)) = new"
    unfolding n(1) by simp
  have a: "let new = drop (length (gw_log s0)) (gw_log (p_run evs s0))
          in if edits new = [] then page (p_run evs s0) = 0
             else last (edits new) = js_index ps (page (p_run evs s0))"
    unfolding d Let_def using n(2) s0 by simp
  have b: "p_run (evs @ evs') s0 = p_run evs' (p_run evs s0)"
    by (simp add: p_run_def)
  have c: "r_run cb (evs @ evs') t = r_run cb evs' (r_run cb evs t)"
    by (simp add: r_run_def)
  show ?thesis
    using a b c p_run_forget [of evs s0] r_run_forget [of cb evs t] by blast
qed

text \<open>
  C3 as stated fails: two fast-forwards by the owner arrive with no acknowledgement in
  between. After the first the cursor is 1 and its edit is unanswered; the second is
  applied all the same (the cursor is 2) while the first edit is still unanswered.
\<close>

theorem reactions_wait_for_render_counterexample:
  "page (p_run [forward alice] paged0) = 1 \<and>
   unacked (gw_log (p_run [forward alice] paged0)) [] =
     [RemoveUser FastForward alice, Edit (Text ''b'')] \<and>
   page (p_run [forward alice, forward alice] paged0) = 2 \<and>
   unacked (gw_log (p_run [forward alice, forward alice] paged0)) [] =
     [RemoveUser FastForward alice, Edit (Text ''b''),
      RemoveUser FastForward alice, Edit (Text ''c'')]"
proof -
  have r1: "p_run [forward alice] paged0 =
     paged0\<lparr>gw_log := gw_log paged0 @
        [Req (RemoveUser FastForward alice), Req (Edit (Text ''b''))],
       page := 1\<rparr>"
    by (simp add: p_run_def forward_def paged0_def pages0_def alice_def robot_def
      nextFilter_def backFilter_def onNext_def request_def emit_def js_index_def Let_def)
  show ?thesis unfolding r1 run_forward2 by (simp add: paged0_def)
qed

theorem reactions_applied_without_waiting_witness:
  "pagedContent gw0 msg0 pages0 w0 = Session paged0 \<and>
   page (p_run [forward alice, GwAck, forward alice, GwAck] paged0) = 2 \<and>
   last (edits (drop (length (gw_log paged0)) (gw_log (p_run [forward alice, forward alice] paged0))))
     = Text ''c''"
proof -
  note t = reactions_applied_without_waiting [where evs = "[forward alice, forward alice]",
      OF pagedContent_paged0]
  note t' = reactions_applied_without_waiting [where
      evs = "[forward alice, GwAck, forward alice, GwAck]", OF pagedContent_paged0]
  have f: "filter (\<lambda>e. e \<noteq> GwAck) [forward alice, GwAck, forward alice, GwAck] =
           [forward alice, forward alice]"
    by (simp add: forward_def)
  have "forget_log (p_run [forward alice, GwAck, forward alice, GwAck] paged0) =
        forget_log (p_run [forward alice, forward alice] paged0)"
    using t' unfolding f by blast
  then have "page (forget_log (p_run [forward alice, GwAck, forward alice, GwAck] paged0)) =
        page (forget_log (p_run [forward alice, forward alice] paged0))"
    by simp
  then have p: "page (p_run [forward alice, GwAck, forward alice, GwAck] paged0) = 2"
    unfolding run_forward2 by (simp add: forget_log_def)
  have e: "edits (drop (length (gw_log paged0)) (gw_log (p_run [forward alice, forward alice] paged0)))
        = [Text ''b'', Text ''c'']"
    unfolding run_forward2 by (simp add: edits_def)
  have "let new = drop (length (gw_log paged0)) (gw_log (p_run [forward alice, forward alice] paged0))
          in if edits new = [] then page (p_run [forward alice, forward alice] paged0) = 0
             else last (edits new) = js_index pages0 (page (p_run [forward alice, forward alice] paged0))"
    using t by blast
  then have "last (edits (drop (length (gw_log paged0))
               (gw_log (p_run [forward alice, forward alice] paged0)))) =
             js_index pages0 (page (p_run [forward alice, forward alice] paged0))"
    unfolding Let_def e by simp
  then have l: "last (edits (drop (length (gw_log paged0))
               (gw_log (p_run [forward alice, forward alice] paged0)))) = Text ''c''"
    unfolding run_forward2 by (simp add: js_index_def pages0_def paged0_def)
  show ?thesis using pagedContent_paged0 p l by simp
qed

theorem buildSongEmbed_mutates_song_witness:
  "snd (buildSongEmbed song0) = song1 \<and>
   map_of song0 ''artist'' = Some (JStr []) \<and>
   map_of (snd (buildSongEmbed song0)) ''artist'' = Some (JStr ''-'') \<and>
   map_of (snd (buildSongEmbed song0)) ''title'' = Some (JStr ''A'') \<and>
   channel msg0 = Some 3 \<and>
   fst (displaySong gw0 msg0 song0 w0) = song1 \<and>
   pending (r_run cb0 [vote UpArrow alice] (rating0\<lparr>song := song0\<rparr>)) ! 0 = Resolves None \<and>
   song (r_run cb0 [vote UpArrow alice] (rating0\<lparr>song := song0\<rparr>)) =
     [(''title'', JStr ''A''), (''artist'', JStr []), (''requester'', JStr ''alice''),
      (''rating'', JNum 1), (''src'', JStr ''yt'')] \<and>
   song (r_step cb0 (Settle 0) (r_run cb0 [vote UpArrow alice] (rating0\<lparr>song := song0\<rparr>))) =
     [(''title'', JStr ''A''), (''artist'', JStr ''-''), (''requester'', JStr ''alice''),
      (''rating'', JNum 1), (''src'', JStr ''yt'')]"
proof -
  let ?s = "r_run cb0 [vote UpArrow alice] (rating0\<lparr>song := song0\<rparr>)"
  have e: "snd (buildSongEmbed song0) = song1"
    by (simp add: buildSongEmbed_def dashEmpty_def song0_def song1_def Let_def)
  have h: "channel msg0 = Some 3" by (simp add: msg0_def)
  have m: "map_of song0 ''artist'' = Some (JStr [])" "map_of song0 ''title'' = Some (JStr ''A'')"
    by (simp_all add: song0_def)
  have r: "?s = rating0\<lparr>gw_log := gw_log rating0 @ [Req (RemoveUser UpArrow alice)],
       song := [(''title'', JStr ''A''), (''artist'', JStr []), (''requester'', JStr ''alice''),
            (''rating'', JNum 1), (''src'', JStr ''yt'')],
       pending := [Resolves None],
       ratingCalls := [(alice, 1, False)]\<rparr>"
    by (simp add: r_run_def vote_def ratingFilter_def onUp_def handleRatingReaction_def rate_def
      cb0_def bump_def request_def emit_def Let_def rating0_def song0_def alice_def robot_def)
  have p: "0 < length (pending ?s) \<and> pending ?s ! 0 = Resolves None"
    unfolding r by simp
  have sg: "song ?s = [(''title'', JStr ''A''), (''artist'', JStr []),
      (''requester'', JStr ''alice''), (''rating'', JNum 1), (''src'', JStr ''yt'')]"
    unfolding r by simp
  have t: "(\<forall>key. map_of (snd (buildSongEmbed song0)) key =
      (if map_of song0 key = Some (JStr []) then Some (JStr ''-'') else map_of song0 key)) \<and>
      fst (displaySong gw0 msg0 song0 w0) = snd (buildSongEmbed song0)"
    using buildSongEmbed_mutates_song [of song0 msg0 3 gw0 w0] h by blast
  have "song (r_step cb0 (Settle 0) ?s) = snd (buildSongEmbed (song ?s))"
    using buildSongEmbed_mutates_song [where i = 0 and s = ?s and cb = cb0] p by blast
  then have u: "song (r_step cb0 (Settle 0) ?s) =
     [(''title'', JStr ''A''), (''artist'', JStr ''-''), (''requester'', JStr ''alice''),
      (''rating'', JNum 1), (''src'', JStr ''yt'')]"
    unfolding sg by (simp add: buildSongEmbed_def dashEmpty_def Let_def)
  have "map_of (snd (buildSongEmbed song0)) ''artist'' = Some (JStr ''-'') \<and>
        map_of (snd (buildSongEmbed song0)) ''title'' = Some (JStr ''A'')"
    using t m by simp
  then show ?thesis using e h m t p sg u by simp
qed

end
